theory Spec2Isabelle
  imports Complex_Main "HOL-Library.Sublist"
begin

section \<open>Dashboard\_to\_gpx: coordinate parsing, trajectory sanity check, GPX writer\<close>

text \<open>
  A shallow embedding of \<^verbatim>\<open>Dashboard_to_gpx.py\<close>. Conventions of the model:
  \<^item> a finite Python \<^verbatim>\<open>float\<close> is the real number it stands for. The operations that
    round (sum, product, quotient, square root, the trigonometric functions) are the
    fields of a record \<open>float_ops\<close> that the sanity check takes as a parameter and about
    which nothing is assumed; order tests, negation and the absolute value are exact on
    floats and are those of the reals. Where a float is printed, the negative zero is a
    value of its own (\<open>pyfloat\<close>);
  \<^item> a Python \<^verbatim>\<open>int\<close> is an \<open>int\<close>;
  \<^item> a Python \<^verbatim>\<open>str\<close> is a list of 8-bit characters, each read as the code point of the
    same number (Latin-1), so that the degree sign is the single character \<open>0xB0\<close>;
  \<^item> a naive \<^verbatim>\<open>datetime\<close> is the record of its seven fields;
  \<^item> an exception is the \<open>Inl\<close> branch of a sum.
\<close>

datatype py_error = ZeroDivisionError | ValueError

subsection \<open>Naive datetimes\<close>

record datetime =
  year :: int
  month :: int
  day :: int
  hour :: int
  minute :: int
  second :: int
  microsecond :: int

definition is_leap :: "int \<Rightarrow> bool" where
  "is_leap y = (y mod 4 = 0 \<and> (y mod 100 \<noteq> 0 \<or> y mod 400 = 0))"

definition days_before_year :: "int \<Rightarrow> int" where
  "days_before_year y = (let y1 = y - 1 in y1 * 365 + y1 div 4 - y1 div 100 + y1 div 400)"

definition days_before_month :: "int \<Rightarrow> int \<Rightarrow> int" where
  "days_before_month y m =
     (if 1 \<le> m \<and> m \<le> 12
      then [0, 31, 59, 90, 120, 151, 181, 212, 243, 273, 304, 334] ! nat (m - 1)
           + (if m > 2 \<and> is_leap y then 1 else 0)
      else 0)"

definition toordinal :: "datetime \<Rightarrow> int" where
  "toordinal d = days_before_year (year d) + days_before_month (year d) (month d) + day d"

definition day_seconds :: "datetime \<Rightarrow> int" where
  "day_seconds d = second d + minute d * 60 + hour d * 3600"

text \<open>\<^verbatim>\<open>(t - prev_t).total_seconds()\<close>: the difference in microseconds, divided by \<open>10^6\<close>.\<close>

definition total_seconds :: "datetime \<Rightarrow> datetime \<Rightarrow> real" where
  "total_seconds t prev_t =
     real_of_int (((toordinal t - toordinal prev_t) * 86400
                    + (day_seconds t - day_seconds prev_t)) * 1000000
                  + (microsecond t - microsecond prev_t)) / 1000000"

subsection \<open>Floating-point arithmetic\<close>

text \<open>
  The rounding operations of the sanity check. \<open>f_pow2 x\<close> is \<^verbatim>\<open>x**2\<close>, \<open>f_radians\<close>,
  \<open>f_sin\<close>, \<open>f_cos\<close>, \<open>f_sqrt\<close> and \<open>f_atan2\<close> are the functions of \<^verbatim>\<open>math\<close>. A theorem
  stated for every \<open>ops\<close> holds for the arithmetic of the machine, whatever it rounds to.
\<close>

record float_ops =
  f_add :: "real \<Rightarrow> real \<Rightarrow> real"
  f_sub :: "real \<Rightarrow> real \<Rightarrow> real"
  f_mul :: "real \<Rightarrow> real \<Rightarrow> real"
  f_div :: "real \<Rightarrow> real \<Rightarrow> real"
  f_pow2 :: "real \<Rightarrow> real"
  f_radians :: "real \<Rightarrow> real"
  f_sin :: "real \<Rightarrow> real"
  f_cos :: "real \<Rightarrow> real"
  f_sqrt :: "real \<Rightarrow> real"
  f_atan2 :: "real \<Rightarrow> real \<Rightarrow> real"

text \<open>\<^verbatim>\<open>math.sqrt\<close> raises on a negative argument, the division on a zero divisor.\<close>

definition sqrt_fp :: "float_ops \<Rightarrow> real \<Rightarrow> py_error + real" where
  "sqrt_fp ops x = (if x < 0 then Inl ValueError else Inr (f_sqrt ops x))"

definition div_fp :: "float_ops \<Rightarrow> real \<Rightarrow> real \<Rightarrow> py_error + real" where
  "div_fp ops a b = (if b = 0 then Inl ZeroDivisionError else Inr (f_div ops a b))"

text \<open>The arithmetic that does not round.\<close>

definition radians :: "real \<Rightarrow> real" where
  "radians x = x * (pi / 180)"

definition atan2 :: "real \<Rightarrow> real \<Rightarrow> real" where
  "atan2 y x =
     (if x > 0 then arctan (y / x)
      else if x < 0 then (if y \<ge> 0 then arctan (y / x) + pi else arctan (y / x) - pi)
      else if y > 0 then pi / 2
      else if y < 0 then - (pi / 2)
      else 0)"

definition exact_ops :: float_ops where
  "exact_ops =
     \<lparr>f_add = (+), f_sub = (-), f_mul = (*), f_div = (/), f_pow2 = (\<lambda>x. x\<^sup>2),
      f_radians = radians, f_sin = sin, f_cos = cos, f_sqrt = sqrt, f_atan2 = atan2\<rparr>"

subsection \<open>Sanity check and correction\<close>

text \<open>The value \<^verbatim>\<open>a\<close> of \<^verbatim>\<open>haversine\<close> (source line 46), then the function itself.\<close>

definition haversine_a_fp :: "float_ops \<Rightarrow> real \<Rightarrow> real \<Rightarrow> real \<Rightarrow> real \<Rightarrow> real" where
  "haversine_a_fp ops lat1 lon1 lat2 lon2 =
     (let phi1 = f_radians ops lat1; phi2 = f_radians ops lat2;
          dphi = f_radians ops (f_sub ops lat2 lat1);
          dlambda = f_radians ops (f_sub ops lon2 lon1)
      in f_add ops (f_pow2 ops (f_sin ops (f_div ops dphi 2)))
           (f_mul ops (f_mul ops (f_cos ops phi1) (f_cos ops phi2))
              (f_pow2 ops (f_sin ops (f_div ops dlambda 2)))))"

definition haversine_fp :: "float_ops \<Rightarrow> real \<Rightarrow> real \<Rightarrow> real \<Rightarrow> real \<Rightarrow> py_error + real" where
  "haversine_fp ops lat1 lon1 lat2 lon2 =
     (let R = 6371000;
          a = haversine_a_fp ops lat1 lon1 lat2 lon2
      in case sqrt_fp ops a of
           Inl e \<Rightarrow> Inl e
         | Inr s1 \<Rightarrow>
             (case sqrt_fp ops (f_sub ops 1 a) of
                Inl e \<Rightarrow> Inl e
              | Inr s2 \<Rightarrow> Inr (f_mul ops (f_mul ops R 2) (f_atan2 ops s1 s2))))"

text \<open>The product \<^verbatim>\<open>lat * expected_lat_sign\<close> is formed only when \<open>|lat| > 1\<close> (\<^verbatim>\<open>and\<close>
  evaluates its second operand only then), so it does not underflow and its sign is that of
  the exact product; the expected signs are ints that convert to a float: the caller
  passes \<open>1\<close> or \<open>-1\<close>.\<close>

definition correct_sign :: "real \<Rightarrow> real \<Rightarrow> int \<Rightarrow> int \<Rightarrow> real \<times> real \<times> bool list" where
  "correct_sign lat lon expected_lat_sign expected_lon_sign =
     (let flipped = [False, False];
          (lat, flipped) =
            (if \<bar>lat\<bar> > 1 \<and> lat * of_int expected_lat_sign < 0
             then (- lat, flipped[0 := True]) else (lat, flipped));
          (lon, flipped) =
            (if \<bar>lon\<bar> > 1 \<and> lon * of_int expected_lon_sign < 0
             then (- lon, flipped[1 := True]) else (lon, flipped))
      in (lat, lon, flipped))"

definition any_py :: "bool list \<Rightarrow> bool" where
  "any_py bs = list_ex (\<lambda>b. b) bs"

type_synonym reading = "datetime \<times> real \<times> real"

record sc_state =
  cleaned :: "reading list"
  flips :: int
  skipped :: int

text \<open>
  One iteration of the loop of \<^verbatim>\<open>sanity_check\<close>, on the pair \<open>(i, (t, lat, lon))\<close> that
  \<^verbatim>\<open>enumerate\<close> yields. \<^verbatim>\<open>continue\<close> is the branch that returns without appending. The
  quotient that gives \<open>dt\<close> is correctly rounded and keeps its sign, so the test
  \<open>dt > 0\<close> is that of the exact value; the rounding of \<open>dt\<close> is part of what
  \<open>f_div\<close> does with it.
\<close>

definition sc_body_fp ::
  "float_ops \<Rightarrow> int \<Rightarrow> int \<Rightarrow> sc_state \<Rightarrow> nat \<times> reading \<Rightarrow> py_error + sc_state" where
  "sc_body_fp ops expected_lat_sign expected_lon_sign st ir =
     (case ir of (i, (t, lat0, lon0)) \<Rightarrow>
      (case correct_sign lat0 lon0 expected_lat_sign expected_lon_sign of (lat, lon, flipped) \<Rightarrow>
       let st = (if any_py flipped then st\<lparr>flips := flips st + 1\<rparr> else st)
       in if i > 0 \<and> cleaned st \<noteq> [] then
            (case last (cleaned st) of (prev_t, prev_lat, prev_lon) \<Rightarrow>
             let dt = total_seconds t prev_t
             in if dt > 0 then
                  (case haversine_fp ops prev_lat prev_lon lat lon of
                     Inl e \<Rightarrow> Inl e
                   | Inr dist_m \<Rightarrow>
                       (case div_fp ops dist_m dt of
                          Inl e \<Rightarrow> Inl e
                        | Inr q \<Rightarrow>
                            let speed = f_mul ops q 3.6
                            in if speed > 300
                               then Inr (st\<lparr>skipped := skipped st + 1\<rparr>)
                               else Inr (st\<lparr>cleaned := cleaned st @ [(t, lat, lon)]\<rparr>)))
                else Inr (st\<lparr>cleaned := cleaned st @ [(t, lat, lon)]\<rparr>))
          else Inr (st\<lparr>cleaned := cleaned st @ [(t, lat, lon)]\<rparr>)))"

fun sc_loop_fp ::
  "float_ops \<Rightarrow> int \<Rightarrow> int \<Rightarrow> sc_state \<Rightarrow> (nat \<times> reading) list \<Rightarrow> py_error + sc_state" where
  "sc_loop_fp ops els elo st [] = Inr st"
| "sc_loop_fp ops els elo st (ir # rest) =
     (case sc_body_fp ops els elo st ir of
        Inl e \<Rightarrow> Inl e
      | Inr st' \<Rightarrow> sc_loop_fp ops els elo st' rest)"

definition sanity_check_fp ::
  "float_ops \<Rightarrow> reading list \<Rightarrow> int \<Rightarrow> int \<Rightarrow> py_error + (reading list \<times> int \<times> int)" where
  "sanity_check_fp ops points expected_lat_sign expected_lon_sign =
     (case sc_loop_fp ops expected_lat_sign expected_lon_sign
             \<lparr>cleaned = [], flips = 0, skipped = 0\<rparr> (enumerate 0 points) of
        Inl e \<Rightarrow> Inl e
      | Inr st \<Rightarrow> Inr (cleaned st, flips st, skipped st))"

text \<open>The sanity check in the arithmetic that does not round: the worked examples below
  are runs in which the floating-point arithmetic gives the same decisions.\<close>

definition sanity_check ::
  "reading list \<Rightarrow> int \<Rightarrow> int \<Rightarrow> py_error + (reading list \<times> int \<times> int)" where
  "sanity_check points expected_lat_sign expected_lon_sign =
     sanity_check_fp exact_ops points expected_lat_sign expected_lon_sign"

subsection \<open>Regular expressions: greedy repetitions of character classes\<close>

text \<open>
  Every factor of the pattern of \<^verbatim>\<open>extract_coords_from_text\<close> is a character class under
  a greedy quantifier: \<open>Rep cls lo hi\<close> matches between \<open>lo\<close> and \<open>hi\<close> characters
  of the class (\<open>None\<close>: no upper bound), and a pattern is a sequence of such factors.
  \<open>rep_splits\<close> lists the ways one factor can match at the front of a string, longest
  first, which is the order in which the backtracking matcher of \<^verbatim>\<open>re\<close> tries them;
  \<open>match_items\<close> lists the matches of a sequence in that order, each with the text every
  factor matched; \<open>search\<close> is \<^verbatim>\<open>pattern.search\<close>: the first match at the leftmost
  position that has one.
\<close>

datatype item = Rep "char \<Rightarrow> bool" nat "nat option"

definition rep_splits :: "(char \<Rightarrow> bool) \<Rightarrow> nat \<Rightarrow> nat option \<Rightarrow> string \<Rightarrow> (string \<times> string) list" where
  "rep_splits cls lo hi s =
     (let run = length (takeWhile cls s);
          n = (case hi of None \<Rightarrow> run | Some h \<Rightarrow> min h run)
      in map (\<lambda>k. (take k s, drop k s)) (rev [lo..<Suc n]))"

fun match_items :: "item list \<Rightarrow> string \<Rightarrow> (string list \<times> string) list" where
  "match_items [] s = [([], s)]"
| "match_items (Rep cls lo hi # its) s =
     concat (map (\<lambda>(w, rest). map (\<lambda>(ws, r). (w # ws, r)) (match_items its rest))
                 (rep_splits cls lo hi s))"

fun search :: "item list \<Rightarrow> string \<Rightarrow> string list option" where
  "search its [] = (case match_items its [] of [] \<Rightarrow> None | m # _ \<Rightarrow> Some (fst m))"
| "search its (c # s) =
     (case match_items its (c # s) of [] \<Rightarrow> search its s | m # _ \<Rightarrow> Some (fst m))"

text \<open>The language of a pattern, stated without reference to the matcher.\<close>

fun rep_lang :: "item \<Rightarrow> string set" where
  "rep_lang (Rep cls lo hi) =
     {w. (\<forall>c \<in> set w. cls c) \<and> lo \<le> length w \<and> (case hi of None \<Rightarrow> True | Some h \<Rightarrow> length w \<le> h)}"

definition pattern_lang :: "item list \<Rightarrow> string set" where
  "pattern_lang its = {concat ws | ws. list_all2 (\<lambda>w it. w \<in> rep_lang it) ws its}"

definition occurs :: "item list \<Rightarrow> string \<Rightarrow> bool" where
  "occurs its text = (\<exists>pre m post. text = pre @ m @ post \<and> m \<in> pattern_lang its)"

subsection \<open>OCR text to coordinates\<close>

definition is_digit :: "char \<Rightarrow> bool" where
  "is_digit c = (c \<in> set ''0123456789'')"

definition is_minus :: "char \<Rightarrow> bool" where
  "is_minus c = (c = CHR ''-'')"

definition is_dot :: "char \<Rightarrow> bool" where
  "is_dot c = (c = CHR ''.'')"

definition is_sep :: "char \<Rightarrow> bool" where
  "is_sep c = (c = CHR '' '' \<or> c = CHR '','' \<or> c = CHR 0xB0)"

definition is_ns :: "char \<Rightarrow> bool" where
  "is_ns c = (c \<in> set ''NnSs'')"

definition is_ew :: "char \<Rightarrow> bool" where
  "is_ew c = (c \<in> set ''EeWw'')"

definition is_filler :: "char \<Rightarrow> bool" where
  "is_filler c = (\<not> is_digit c \<and> c \<noteq> CHR ''-'')"

definition number_items :: "item list" where
  "number_items =
     [Rep is_minus 0 (Some 1), Rep is_digit 1 (Some 3), Rep is_dot 1 (Some 1), Rep is_digit 1 None]"

text \<open>
  \<^verbatim>\<open>(-?\d{1,3}\.\d+)[ ,\<degree>]*([NnSs])?[^0-9\-]*(-?\d{1,3}\.\d+)[ ,\<degree>]*([EeWw])?\<close>:
  thirteen factors; group 1 is factors 0 to 3, group 2 is factor 5, group 3 is factors
  7 to 10 and group 4 is factor 12.
\<close>

definition pattern :: "item list" where
  "pattern =
     number_items
     @ [Rep is_sep 0 None, Rep is_ns 0 (Some 1), Rep is_filler 0 None]
     @ number_items
     @ [Rep is_sep 0 None, Rep is_ew 0 (Some 1)]"

text \<open>A group that did not take part in the match and a group that matched the empty
  string are both the empty string here; the code tests them for truth only.\<close>

definition group1 :: "string list \<Rightarrow> string" where
  "group1 ws = concat (take 4 ws)"

definition group2 :: "string list \<Rightarrow> string" where
  "group2 ws = concat (take 1 (drop 5 ws))"

definition group3 :: "string list \<Rightarrow> string" where
  "group3 ws = concat (take 4 (drop 7 ws))"

definition group4 :: "string list \<Rightarrow> string" where
  "group4 ws = concat (take 1 (drop 12 ws))"

definition digit_val :: "char \<Rightarrow> nat" where
  "digit_val c = of_char c - 48"

definition digits_val :: "string \<Rightarrow> nat" where
  "digits_val ds = foldl (\<lambda>acc c. 10 * acc + digit_val c) 0 ds"

text \<open>
  \<^verbatim>\<open>float(s)\<close> on an optionally negated decimal literal with digits on both sides of the
  point. Every other string is a \<open>ValueError\<close> here; \<^verbatim>\<open>float\<close> accepts more (exponents,
  surrounding blanks, \<^verbatim>\<open>inf\<close>), so the model raises wherever Python does.
\<close>

definition py_float :: "string \<Rightarrow> py_error + real" where
  "py_float s =
     (let neg = (s \<noteq> [] \<and> hd s = CHR ''-'');
          body = (if neg then tl s else s);
          ip = takeWhile is_digit body;
          rest = dropWhile is_digit body
      in case rest of
           [] \<Rightarrow> Inl ValueError
         | p # fp \<Rightarrow>
             if p = CHR ''.'' \<and> ip \<noteq> [] \<and> fp \<noteq> [] \<and> list_all is_digit fp
             then let v = real (digits_val ip) + real (digits_val fp) / 10 ^ length fp
                  in Inr (if neg then - v else v)
             else Inl ValueError)"

definition upper_char :: "char \<Rightarrow> char" where
  "upper_char c = (if c \<in> set ''abcdefghijklmnopqrstuvwxyz'' then char_of (of_char c - (32::nat)) else c)"

definition upper :: "string \<Rightarrow> string" where
  "upper s = map upper_char s"

definition extract_coords_from_text :: "string \<Rightarrow> py_error + (real \<times> real) option" where
  "extract_coords_from_text text =
     (case search pattern text of
        None \<Rightarrow> Inr None
      | Some m \<Rightarrow>
          (case py_float (group1 m) of
             Inl e \<Rightarrow> Inl e
           | Inr lat \<Rightarrow>
               (case py_float (group3 m) of
                  Inl e \<Rightarrow> Inl e
                | Inr lon \<Rightarrow>
                    let ns = group2 m;
                        ew = group4 m;
                        lat = (if ns \<noteq> [] then (if upper ns = ''S'' then - \<bar>lat\<bar> else \<bar>lat\<bar>) else lat);
                        lon = (if ew \<noteq> [] then (if upper ew = ''W'' then - \<bar>lon\<bar> else \<bar>lon\<bar>) else lon)
                    in Inr (Some (lat, lon)))))"

text \<open>The pattern as the specification words it: number, separators, N/S letter, number,
  separators, E/W letter, with nothing between the N/S letter and the second number.\<close>

definition spec_pattern :: "item list" where
  "spec_pattern =
     number_items
     @ [Rep is_sep 0 None, Rep is_ns 0 (Some 1)]
     @ number_items
     @ [Rep is_sep 0 None, Rep is_ew 0 (Some 1)]"

subsection \<open>GPX writer\<close>

definition digit_char :: "nat \<Rightarrow> char" where
  "digit_char d = char_of (48 + d)"

fun str_nat :: "nat \<Rightarrow> string" where
  "str_nat n = (if n < 10 then [digit_char n] else str_nat (n div 10) @ [digit_char (n mod 10)])"

declare str_nat.simps [simp del]

text \<open>\<^verbatim>\<open>"%0wd" % n\<close> for a field \<open>n \<ge> 0\<close>, as the fields of a datetime are.\<close>

definition zero_pad :: "nat \<Rightarrow> int \<Rightarrow> string" where
  "zero_pad w n = (let s = str_nat (nat n) in replicate (w - length s) (CHR ''0'') @ s)"

definition isoformat :: "datetime \<Rightarrow> string" where
  "isoformat t =
     zero_pad 4 (year t) @ ''-'' @ zero_pad 2 (month t) @ ''-'' @ zero_pad 2 (day t) @ ''T''
     @ zero_pad 2 (hour t) @ '':'' @ zero_pad 2 (minute t) @ '':'' @ zero_pad 2 (second t)
     @ (if microsecond t \<noteq> 0 then ''.'' @ zero_pad 6 (microsecond t) else [])"

definition round_half_even :: "real \<Rightarrow> int" where
  "round_half_even y =
     (let f = \<lfloor>y\<rfloor>; d = y - of_int f
      in if d < 1 / 2 then f else if d > 1 / 2 then f + 1 else if even f then f else f + 1)"

text \<open>A finite float as it is printed: a real number (a zero is the positive zero) or
  the negative zero.\<close>

datatype pyfloat = Float real | NegZero

fun float_val :: "pyfloat \<Rightarrow> real" where
  "float_val (Float x) = x"
| "float_val NegZero = 0"

fun sign_bit :: "pyfloat \<Rightarrow> bool" where
  "sign_bit (Float x) = (x < 0)"
| "sign_bit NegZero = True"

text \<open>\<^verbatim>\<open>f"{x:.6f}"\<close>: the sign, the integer part, the point and six digits, correctly
  rounded (ties to even); the sign is that of the float, also when the digits are all
  zero.\<close>

definition fmt6 :: "pyfloat \<Rightarrow> string" where
  "fmt6 x =
     (let n = round_half_even (\<bar>float_val x\<bar> * 1000000)
      in (if sign_bit x then ''-'' else []) @ str_nat (nat (n div 1000000)) @ ''.''
         @ zero_pad 6 (n mod 1000000))"

type_synonym track_point = "datetime \<times> pyfloat \<times> pyfloat"

text \<open>The file is its content; \<^verbatim>\<open>f.write\<close> appends to it.\<close>

fun write_points :: "string \<Rightarrow> track_point list \<Rightarrow> string" where
  "write_points f [] = f"
| "write_points f ((t, lat, lon) # points) =
     write_points
       (f @ ''      <trkpt lat='' @ [CHR 0x22] @ fmt6 lat @ [CHR 0x22] @ '' lon='' @ [CHR 0x22]
          @ fmt6 lon @ [CHR 0x22] @ ''><time>'' @ isoformat t @ ''Z</time></trkpt>'' @ [CHR 0x0A])
       points"

text \<open>\<^verbatim>\<open>open(out_file, "w")\<close> starts from the empty file; on leaving the \<^verbatim>\<open>with\<close> block the
  file system holds the content under \<open>out_file\<close>.\<close>

definition write_gpx :: "track_point list \<Rightarrow> string \<Rightarrow> (string \<rightharpoonup> string) \<Rightarrow> (string \<rightharpoonup> string)" where
  "write_gpx points out_file fs =
     (let f = [];
          f = f @ ''<?xml version='' @ [CHR 0x22] @ ''1.0'' @ [CHR 0x22] @ '' encoding=''
                @ [CHR 0x22] @ ''UTF-8'' @ [CHR 0x22] @ ''?>'' @ [CHR 0x0A];
          f = f @ ''<gpx version='' @ [CHR 0x22] @ ''1.1'' @ [CHR 0x22] @ '' creator=''
                @ [CHR 0x22] @ ''DashcamExtractor'' @ [CHR 0x22] @ '' xmlns='' @ [CHR 0x22]
                @ ''http://www.topografix.com/GPX/1/1'' @ [CHR 0x22] @ ''>'' @ [CHR 0x0A];
          f = f @ ''  <trk>'' @ [CHR 0x0A] @ ''    <trkseg>'' @ [CHR 0x0A];
          f = write_points f points;
          f = f @ ''    </trkseg>'' @ [CHR 0x0A] @ ''  </trk>'' @ [CHR 0x0A] @ ''</gpx>'' @ [CHR 0x0A]
      in fs(out_file \<mapsto> f))"

subsection \<open>Vocabulary for the properties\<close>

text \<open>What the sign correction makes of a reading, and whether the loop counts it as
  corrected: the two results of \<open>correct_sign\<close> that \<open>sc_body_fp\<close> uses.\<close>

definition corrected_reading :: "int \<Rightarrow> int \<Rightarrow> reading \<Rightarrow> reading" where
  "corrected_reading els elo r =
     (case r of (t, lat0, lon0) \<Rightarrow>
        (case correct_sign lat0 lon0 els elo of (lat, lon, flipped) \<Rightarrow> (t, lat, lon)))"

definition had_correction :: "int \<Rightarrow> int \<Rightarrow> reading \<Rightarrow> bool" where
  "had_correction els elo r =
     (case r of (t, lat0, lon0) \<Rightarrow>
        (case correct_sign lat0 lon0 els elo of (lat, lon, flipped) \<Rightarrow> any_py flipped))"

definition flip_count :: "int \<Rightarrow> int \<Rightarrow> reading \<Rightarrow> int" where
  "flip_count els elo r = (if had_correction els elo r then 1 else 0)"

text \<open>A decimal numeral with exactly six digits after the point: an optional \<open>-\<close>, one or
  more digits, the point, six digits.\<close>

definition six_decimals :: "string \<Rightarrow> bool" where
  "six_decimals s =
     (let body = (if s \<noteq> [] \<and> hd s = CHR ''-'' then tl s else s);
          ip = takeWhile is_digit body;
          rest = dropWhile is_digit body
      in ip \<noteq> [] \<and>
         (case rest of
            [] \<Rightarrow> False
          | p # fp \<Rightarrow> p = CHR ''.'' \<and> length fp = 6 \<and> list_all is_digit fp))"

text \<open>The ranges that the class \<^verbatim>\<open>datetime\<close> keeps its fields in (the day also depends
  on the month; the bound that holds for every month is enough here).\<close>

definition fields_in_range :: "datetime \<Rightarrow> bool" where
  "fields_in_range t =
     (1 \<le> year t \<and> year t \<le> 9999 \<and> 1 \<le> month t \<and> month t \<le> 12
      \<and> 1 \<le> day t \<and> day t \<le> 31 \<and> 0 \<le> hour t \<and> hour t < 24
      \<and> 0 \<le> minute t \<and> minute t < 60 \<and> 0 \<le> second t \<and> second t < 60
      \<and> 0 \<le> microsecond t \<and> microsecond t < 1000000)"

text \<open>An arithmetic whose sums come out one unit in the last place of 1 too high, as a
  rounded sum can: it gives the value \<open>a = 1 + 2^-52\<close> that double arithmetic gives for
  \<^verbatim>\<open>haversine(-0.82, 0.0, 0.82, 180.0)\<close>.\<close>

definition round_up_ops :: float_ops where
  "round_up_ops = exact_ops\<lparr>f_add := \<lambda>x y. x + y + 1 / 2 ^ 52\<rparr>"

text \<open>Two instants one second apart, for the worked examples.\<close>

definition noon :: datetime where
  "noon = \<lparr>year = 2024, month = 2, day = 29, hour = 12, minute = 0, second = 0, microsecond = 0\<rparr>"

definition noon_01 :: datetime where
  "noon_01 = noon\<lparr>second := 1\<rparr>"

section \<open>Verification\<close>

subsection \<open>One iteration of the loop\<close>

lemma correct_sign_eq:
  "correct_sign lat lon els elo =
     (if \<bar>lat\<bar> > 1 \<and> lat * of_int els < 0 then - lat else lat,
      if \<bar>lon\<bar> > 1 \<and> lon * of_int elo < 0 then - lon else lon,
      [\<bar>lat\<bar> > 1 \<and> lat * of_int els < 0, \<bar>lon\<bar> > 1 \<and> lon * of_int elo < 0])"
  by (simp add: correct_sign_def Let_def)

lemma had_correction_iff:
  "had_correction els elo (t, lat, lon) \<longleftrightarrow>
     (\<bar>lat\<bar> > 1 \<and> lat * of_int els < 0) \<or> (\<bar>lon\<bar> > 1 \<and> lon * of_int elo < 0)"
  by (simp add: had_correction_def correct_sign_eq any_py_def)

lemma corrected_reading_eq:
  "corrected_reading els elo (t, lat, lon) =
     (t, if \<bar>lat\<bar> > 1 \<and> lat * of_int els < 0 then - lat else lat,
         if \<bar>lon\<bar> > 1 \<and> lon * of_int elo < 0 then - lon else lon)"
  by (simp add: corrected_reading_def correct_sign_eq)

lemma haversine_fp_error:
  assumes "haversine_fp ops lat1 lon1 lat2 lon2 = Inl e"
  shows "e = ValueError"
  using assms
  by (auto simp: haversine_fp_def sqrt_fp_def Let_def split: if_splits)

lemma haversine_fp_domain_error:
  assumes "0 \<le> haversine_a_fp ops lat1 lon1 lat2 lon2"
    and "f_sub ops 1 (haversine_a_fp ops lat1 lon1 lat2 lon2) < 0"
  shows "haversine_fp ops lat1 lon1 lat2 lon2 = Inl ValueError"
  using assms by (simp add: haversine_fp_def sqrt_fp_def Let_def)

text \<open>The outcomes of an iteration, by the guards of the source.\<close>

lemma sc_body_fp_no_anchor:
  assumes "i = 0 \<or> cleaned st = []"
  shows "sc_body_fp ops els elo st (i, r) =
           Inr (st\<lparr>cleaned := cleaned st @ [corrected_reading els elo r],
                    flips := flips st + flip_count els elo r\<rparr>)"
  using assms
  by (cases r) (auto simp: sc_body_fp_def corrected_reading_def had_correction_def flip_count_def
                  Let_def split: prod.splits)

lemma sc_body_fp_nonpositive_dt:
  assumes "last (cleaned st) = (prev_t, prev_lat, prev_lon)"
    and "total_seconds (fst r) prev_t \<le> 0"
  shows "sc_body_fp ops els elo st (i, r) =
           Inr (st\<lparr>cleaned := cleaned st @ [corrected_reading els elo r],
                    flips := flips st + flip_count els elo r\<rparr>)"
  using assms
  by (cases r) (auto simp: sc_body_fp_def corrected_reading_def had_correction_def flip_count_def
                  Let_def split: prod.splits)

lemma sc_body_fp_checked:
  assumes "0 < i" and "cleaned st \<noteq> []"
    and "last (cleaned st) = (prev_t, prev_lat, prev_lon)"
    and "corrected_reading els elo r = (t, lat, lon)"
    and "0 < total_seconds t prev_t"
  shows "sc_body_fp ops els elo st (i, r) =
           (case haversine_fp ops prev_lat prev_lon lat lon of
              Inl e \<Rightarrow> Inl e
            | Inr d \<Rightarrow>
                Inr (if 300 < f_mul ops (f_div ops d (total_seconds t prev_t)) 3.6
                     then st\<lparr>flips := flips st + flip_count els elo r, skipped := skipped st + 1\<rparr>
                     else st\<lparr>cleaned := cleaned st @ [(t, lat, lon)],
                             flips := flips st + flip_count els elo r\<rparr>))"
  using assms
  by (cases r) (auto simp: sc_body_fp_def corrected_reading_def had_correction_def flip_count_def
                  div_fp_def Let_def split: prod.splits sum.splits)

lemma sc_body_fp_cases:
  "sc_body_fp ops els elo st (i, r) =
       Inr (st\<lparr>cleaned := cleaned st @ [corrected_reading els elo r],
                flips := flips st + flip_count els elo r\<rparr>)
   \<or> sc_body_fp ops els elo st (i, r) =
       Inr (st\<lparr>flips := flips st + flip_count els elo r, skipped := skipped st + 1\<rparr>)
   \<or> sc_body_fp ops els elo st (i, r) = Inl ValueError"
proof (cases "0 < i \<and> cleaned st \<noteq> []")
  case False
  then show ?thesis by (simp add: sc_body_fp_no_anchor)
next
  case True
  obtain prev_t prev_lat prev_lon where l: "last (cleaned st) = (prev_t, prev_lat, prev_lon)"
    by (cases "last (cleaned st)")
  obtain t lat lon where c: "corrected_reading els elo r = (t, lat, lon)"
    by (cases "corrected_reading els elo r")
  have t: "t = fst r"
    using c by (cases r) (simp add: corrected_reading_eq)
  show ?thesis
  proof (cases "0 < total_seconds t prev_t")
    case False
    then show ?thesis
      using sc_body_fp_nonpositive_dt [OF l, of r ops els elo i] t by simp
  next
    case dt: True
    show ?thesis
    proof (cases "haversine_fp ops prev_lat prev_lon lat lon")
      case (Inl e)
      then show ?thesis
        using sc_body_fp_checked [of i st prev_t prev_lat prev_lon els elo r t lat lon ops]
          True l dt haversine_fp_error [OF Inl] by (simp add: c)
    next
      case (Inr d)
      then show ?thesis
        using sc_body_fp_checked [of i st prev_t prev_lat prev_lon els elo r t lat lon ops]
          True l dt by (simp add: c)
    qed
  qed
qed

subsection \<open>The loop as a whole\<close>

lemma sc_loop_fp_append:
  "sc_loop_fp ops els elo st (xs @ ys) =
     (case sc_loop_fp ops els elo st xs of
        Inl e \<Rightarrow> Inl e
      | Inr st' \<Rightarrow> sc_loop_fp ops els elo st' ys)"
  by (induction xs arbitrary: st) (auto split: sum.splits)

lemma sanity_check_fp_Nil: "sanity_check_fp ops [] els elo = Inr ([], 0, 0)"
  by (simp add: sanity_check_fp_def)

lemma sanity_check_fp_snoc:
  assumes "sanity_check_fp ops pre els elo = Inr (cl, fl, sk)"
  shows "sanity_check_fp ops (pre @ [r]) els elo =
           (case sc_body_fp ops els elo \<lparr>cleaned = cl, flips = fl, skipped = sk\<rparr> (length pre, r) of
              Inl e \<Rightarrow> Inl e
            | Inr st \<Rightarrow> Inr (cleaned st, flips st, skipped st))"
proof -
  from assms obtain st where
    st: "sc_loop_fp ops els elo \<lparr>cleaned = [], flips = 0, skipped = 0\<rparr> (enumerate 0 pre) = Inr st"
    by (auto simp: sanity_check_fp_def split: sum.splits)
  with assms have "st = \<lparr>cleaned = cl, flips = fl, skipped = sk\<rparr>"
    by (simp add: sanity_check_fp_def)
  with st show ?thesis
    by (simp add: sanity_check_fp_def enumerate_append_eq sc_loop_fp_append split: sum.splits)
qed

lemma sanity_check_fp_raised:
  assumes "sanity_check_fp ops pre els elo = Inl e"
  shows "sanity_check_fp ops (pre @ post) els elo = Inl e"
  using assms
  by (auto simp: sanity_check_fp_def enumerate_append_eq sc_loop_fp_append split: sum.splits)

lemma sanity_check_fp_prefix:
  assumes "sanity_check_fp ops (pre @ post) els elo = Inr res"
  shows "\<exists>cl fl sk. sanity_check_fp ops pre els elo = Inr (cl, fl, sk)"
proof (cases "sanity_check_fp ops pre els elo")
  case (Inl e)
  from sanity_check_fp_raised [OF this, of post] assms show ?thesis by simp
next
  case (Inr x)
  then show ?thesis by (cases x) simp
qed

lemma sanity_check_fp_anchor_index:
  assumes "sanity_check_fp ops pre els elo = Inr (cl, fl, sk)" and "cl \<noteq> []"
  shows "0 < length pre"
  using assms by (cases pre) (simp_all add: sanity_check_fp_Nil)

lemma sanity_check_fp_step:
  assumes "sanity_check_fp ops pre els elo = Inr (cl, fl, sk)"
  shows "sanity_check_fp ops (pre @ [r]) els elo
           = Inr (cl @ [corrected_reading els elo r], fl + flip_count els elo r, sk)
       \<or> sanity_check_fp ops (pre @ [r]) els elo
           = Inr (cl, fl + flip_count els elo r, sk + 1)
       \<or> sanity_check_fp ops (pre @ [r]) els elo = Inl ValueError"
  using sc_body_fp_cases [of ops els elo "\<lparr>cleaned = cl, flips = fl, skipped = sk\<rparr>" "length pre" r]
  by (auto simp: sanity_check_fp_snoc [OF assms])


lemma sanity_check_fp_single:
  "sanity_check_fp ops [r] els elo = Inr ([corrected_reading els elo r], flip_count els elo r, 0)"
  using sanity_check_fp_snoc [OF sanity_check_fp_Nil, of ops r els elo]
  by (simp add: sc_body_fp_no_anchor)

subsection \<open>Worked distances and times\<close>

lemma atan2_sin_cos:
  assumes "0 < x" and "x < pi / 2"
  shows "atan2 (sqrt ((sin x)\<^sup>2)) (sqrt (1 - (sin x)\<^sup>2)) = x"
proof -
  have s: "0 < sin x" using assms by (intro sin_gt_zero) simp_all
  have c: "0 < cos x" using assms by (intro cos_gt_zero) simp_all
  have "1 - (sin x)\<^sup>2 = (cos x)\<^sup>2"
    by (simp add: cos_squared_eq)
  then have "atan2 (sqrt ((sin x)\<^sup>2)) (sqrt (1 - (sin x)\<^sup>2)) = arctan (sin x / cos x)"
    using s c by (simp add: atan2_def)
  also have "\<dots> = arctan (tan x)"
    by (simp add: tan_def)
  also have "\<dots> = x"
    using assms by (intro arctan_tan) simp_all
  finally show ?thesis .
qed

lemma haversine_a_exact:
  "haversine_a_fp exact_ops lat1 lon1 lat2 lon2 =
     (sin (radians (lat2 - lat1) / 2))\<^sup>2
     + cos (radians lat1) * cos (radians lat2) * (sin (radians (lon2 - lon1) / 2))\<^sup>2"
  by (simp add: haversine_a_fp_def exact_ops_def Let_def)

lemma haversine_half_turn: "haversine_fp exact_ops 0 0 0 180 = Inr (6371000 * pi)"
  by (simp add: haversine_fp_def haversine_a_exact sqrt_fp_def Let_def)
     (simp add: exact_ops_def radians_def atan2_def)

lemma haversine_one_degree_north:
  "haversine_fp exact_ops 43 (- 79) 44 (- 79) = Inr (6371000 * 2 * (pi / 360))"
proof -
  have a: "haversine_a_fp exact_ops 43 (- 79) 44 (- 79) = (sin (pi / 360))\<^sup>2"
    by (simp add: haversine_a_exact radians_def)
  have le: "(sin (pi / 360))\<^sup>2 \<le> 1"
    using sin_cos_squared_add [of "pi / 360"] zero_le_power2 [of "cos (pi / 360)"] by linarith
  have "atan2 (sqrt ((sin (pi / 360))\<^sup>2)) (sqrt (1 - (sin (pi / 360))\<^sup>2)) = pi / 360"
    by (rule atan2_sin_cos) simp_all
  with le show ?thesis
    by (simp add: haversine_fp_def a sqrt_fp_def Let_def) (simp add: exact_ops_def)
qed

lemma haversine_same_point: "haversine_fp exact_ops 43 (- 79) 43 (- 79) = Inr 0"
proof -
  have a: "haversine_a_fp exact_ops 43 (- 79) 43 (- 79) = 0"
    by (simp add: haversine_a_exact radians_def)
  show ?thesis
    by (simp add: haversine_fp_def a sqrt_fp_def Let_def) (simp add: exact_ops_def atan2_def)
qed

text \<open>The antipodal pair: the terms add up to 1, and a sum that comes out above 1 leaves
  the domain of the second square root.\<close>

lemma haversine_a_antipodal:
  "haversine_a_fp round_up_ops (- 0.82) 0 0.82 180 = 1 + 1 / 2 ^ 52"
proof -
  define u :: real where "u = 0.82 * (pi / 180)"
  have r: "radians (0.82 - (- 0.82)) / 2 = u" "radians (- 0.82) = - u" "radians 0.82 = u"
    "radians (180 - 0) / 2 = pi / 2"
    by (simp_all add: radians_def u_def)
  have "haversine_a_fp round_up_ops (- 0.82) 0 0.82 180
          = (sin (radians (0.82 - (- 0.82)) / 2))\<^sup>2
            + cos (radians (- 0.82)) * cos (radians 0.82) * (sin (radians (180 - 0) / 2))\<^sup>2
            + 1 / 2 ^ 52"
    by (simp add: haversine_a_fp_def round_up_ops_def exact_ops_def Let_def)
  also have "\<dots> = (sin u)\<^sup>2 + cos (- u) * cos u * (sin (pi / 2))\<^sup>2 + 1 / 2 ^ 52"
    by (simp only: r)
  also have "\<dots> = ((sin u)\<^sup>2 + (cos u)\<^sup>2) + 1 / 2 ^ 52"
    by (simp add: power2_eq_square)
  finally show ?thesis
    by (simp only: sin_cos_squared_add)
qed

lemma haversine_antipodal: "haversine_fp round_up_ops (- 0.82) 0 0.82 180 = Inl ValueError"
proof (rule haversine_fp_domain_error)
  show "0 \<le> haversine_a_fp round_up_ops (- 0.82) 0 0.82 180"
    by (simp only: haversine_a_antipodal) simp
  show "f_sub round_up_ops 1 (haversine_a_fp round_up_ops (- 0.82) 0 0.82 180) < 0"
    by (simp only: haversine_a_antipodal) (simp add: round_up_ops_def exact_ops_def)
qed

lemma total_seconds_noon_01: "total_seconds noon_01 noon = 1"
  by (simp add: total_seconds_def noon_01_def noon_def toordinal_def day_seconds_def)



subsection \<open>A checked reading\<close>

lemma sanity_check_fp_checked:
  assumes "sanity_check_fp ops pre els elo = Inr (cl, fl, sk)"
    and "cl \<noteq> []"
    and "last cl = (prev_t, prev_lat, prev_lon)"
    and "corrected_reading els elo r = (t, lat, lon)"
    and "0 < total_seconds t prev_t"
  shows "sanity_check_fp ops (pre @ [r]) els elo =
           (case haversine_fp ops prev_lat prev_lon lat lon of
              Inl e \<Rightarrow> Inl e
            | Inr d \<Rightarrow>
                if 300 < f_mul ops (f_div ops d (total_seconds t prev_t)) 3.6
                then Inr (cl, fl + flip_count els elo r, sk + 1)
                else Inr (cl @ [(t, lat, lon)], fl + flip_count els elo r, sk))"
proof -
  have i: "0 < length pre"
    using assms(1,2) by (rule sanity_check_fp_anchor_index)
  show ?thesis
    using sc_body_fp_checked [of "length pre" "\<lparr>cleaned = cl, flips = fl, skipped = sk\<rparr>"
        prev_t prev_lat prev_lon els elo r t lat lon ops] i assms(2,3,4,5)
    by (simp add: sanity_check_fp_snoc [OF assms(1)] split: sum.splits)
qed

lemma sanity_check_fp_unchecked:
  assumes "sanity_check_fp ops pre els elo = Inr (cl, fl, sk)"
    and "cl = [] \<or> total_seconds (fst r) (fst (last cl)) \<le> 0"
  shows "sanity_check_fp ops (pre @ [r]) els elo =
           Inr (cl @ [corrected_reading els elo r], fl + flip_count els elo r, sk)"
proof (cases "cl = []")
  case True
  then show ?thesis
    by (simp add: sanity_check_fp_snoc [OF assms(1)] sc_body_fp_no_anchor)
next
  case False
  obtain prev_t prev_lat prev_lon where l: "last cl = (prev_t, prev_lat, prev_lon)"
    by (cases "last cl")
  with False assms(2) have "total_seconds (fst r) prev_t \<le> 0"
    by simp
  then show ?thesis
    using sc_body_fp_nonpositive_dt [of "\<lparr>cleaned = cl, flips = fl, skipped = sk\<rparr>"
        prev_t prev_lat prev_lon r ops els elo "length pre"] l
    by (simp add: sanity_check_fp_snoc [OF assms(1)])
qed

text \<open>Runs used as examples, in the arithmetic that does not round.\<close>

lemma exact_ops_sel:
  "f_mul exact_ops x y = x * y" "f_div exact_ops x y = x / y"
  "f_add exact_ops x y = x + y" "f_sub exact_ops x y = x - y"
  by (simp_all add: exact_ops_def)

lemma run_one_degree_north:
  "sanity_check_fp exact_ops ([(noon, 43, - 79)] @ [(noon_01, 44, - 79)]) 1 (- 1)
     = Inr ([(noon, 43, - 79)], 0, 1)"
proof -
  have first: "sanity_check_fp exact_ops [(noon, 43, - 79)] 1 (- 1) = Inr ([(noon, 43, - 79)], 0, 0)"
    by (simp add: sanity_check_fp_single corrected_reading_eq flip_count_def had_correction_iff)
  have "sanity_check_fp exact_ops ([(noon, 43, - 79)] @ [(noon_01, 44, - 79)]) 1 (- 1) =
           (case haversine_fp exact_ops 43 (- 79) 44 (- 79) of
              Inl e \<Rightarrow> Inl e
            | Inr d \<Rightarrow>
                if 300 < f_mul exact_ops (f_div exact_ops d (total_seconds noon_01 noon)) 3.6
                then Inr ([(noon, 43, - 79)], 0 + flip_count 1 (- 1) (noon_01, 44, - 79), 0 + 1)
                else Inr ([(noon, 43, - 79)] @ [(noon_01, 44, - 79)],
                          0 + flip_count 1 (- 1) (noon_01, 44, - 79), 0))"
    by (rule sanity_check_fp_checked [OF first])
       (simp_all add: corrected_reading_eq total_seconds_noon_01)
  also have "\<dots> = Inr ([(noon, 43, - 79)], 0, 1)"
    using pi_ge_two
    by (simp add: haversine_one_degree_north total_seconds_noon_01 exact_ops_sel
          flip_count_def had_correction_iff)
  finally show ?thesis .
qed

lemma run_antipodal:
  "sanity_check_fp round_up_ops ([(noon, - 0.82, 0)] @ [(noon_01, 0.82, 180)]) 1 1
     = Inl ValueError"
proof -
  have first: "sanity_check_fp round_up_ops [(noon, - 0.82, 0)] 1 1 = Inr ([(noon, - 0.82, 0)], 0, 0)"
    by (simp add: sanity_check_fp_single corrected_reading_eq flip_count_def had_correction_iff)
  have "sanity_check_fp round_up_ops ([(noon, - 0.82, 0)] @ [(noon_01, 0.82, 180)]) 1 1 =
           (case haversine_fp round_up_ops (- 0.82) 0 0.82 180 of
              Inl e \<Rightarrow> Inl e
            | Inr d \<Rightarrow>
                if 300 < f_mul round_up_ops (f_div round_up_ops d (total_seconds noon_01 noon)) 3.6
                then Inr ([(noon, - 0.82, 0)], 0 + flip_count 1 1 (noon_01, 0.82, 180), 0 + 1)
                else Inr ([(noon, - 0.82, 0)] @ [(noon_01, 0.82, 180)],
                          0 + flip_count 1 1 (noon_01, 0.82, 180), 0))"
    by (rule sanity_check_fp_checked [OF first])
       (simp_all add: corrected_reading_eq total_seconds_noon_01)
  then show ?thesis
    by (simp only: haversine_antipodal sum.case)
qed

subsection \<open>Claims about the sanity check\<close>

text \<open>
  C1. The code at a reading that is checked against an anchor, for every floating-point
  arithmetic. When \<open>haversine\<close> returns a distance and the speed computed from it exceeds
  300, the reading is skipped as the claim says: the cleaned sequence, and so the anchor,
  stays and the skipped counter grows by one. When the sum \<open>a\<close> comes out such that
  \<open>1 - a\<close> is negative, \<open>haversine\<close> raises and the whole run ends in \<open>ValueError\<close>:
  nothing is skipped and nothing is returned. Double arithmetic does this for the anchor
  \<open>(-0.82, 0.0)\<close> and the reading \<open>(0.82, 180.0)\<close>, where it gives
  \<open>a = 1.0000000000000002\<close>.
\<close>

theorem skipped_unless_domain_error:
  assumes "sanity_check_fp ops pre els elo = Inr (cl, fl, sk)"
    and "cl \<noteq> []"
    and "last cl = (prev_t, prev_lat, prev_lon)"
    and "corrected_reading els elo r = (t, lat, lon)"
    and "0 < total_seconds t prev_t"
  shows "(\<forall>d. haversine_fp ops prev_lat prev_lon lat lon = Inr d
              \<and> 300 < f_mul ops (f_div ops d (total_seconds t prev_t)) 3.6
            \<longrightarrow> sanity_check_fp ops (pre @ [r]) els elo
                  = Inr (cl, fl + flip_count els elo r, sk + 1))
       \<and> (0 \<le> haversine_a_fp ops prev_lat prev_lon lat lon
            \<and> f_sub ops 1 (haversine_a_fp ops prev_lat prev_lon lat lon) < 0
          \<longrightarrow> sanity_check_fp ops (pre @ [r]) els elo = Inl ValueError)"
proof (intro conjI allI impI)
  fix d
  assume "haversine_fp ops prev_lat prev_lon lat lon = Inr d
          \<and> 300 < f_mul ops (f_div ops d (total_seconds t prev_t)) 3.6"
  then show "sanity_check_fp ops (pre @ [r]) els elo = Inr (cl, fl + flip_count els elo r, sk + 1)"
    by (simp add: sanity_check_fp_checked [OF assms])
next
  assume "0 \<le> haversine_a_fp ops prev_lat prev_lon lat lon
          \<and> f_sub ops 1 (haversine_a_fp ops prev_lat prev_lon lat lon) < 0"
  then have "haversine_fp ops prev_lat prev_lon lat lon = Inl ValueError"
    by (simp add: haversine_fp_domain_error)
  then show "sanity_check_fp ops (pre @ [r]) els elo = Inl ValueError"
    by (simp add: sanity_check_fp_checked [OF assms])
qed

theorem skipped_unless_domain_error_witness:
  "sanity_check_fp exact_ops ([(noon, 43, - 79)] @ [(noon_01, 44, - 79)]) 1 (- 1)
     = Inr ([(noon, 43, - 79)], 0, 1)
   \<and> sanity_check_fp round_up_ops ([(noon, - 0.82, 0)] @ [(noon_01, 0.82, 180)]) 1 1
     = Inl ValueError"
proof
  have first: "sanity_check_fp exact_ops [(noon, 43, - 79)] 1 (- 1) = Inr ([(noon, 43, - 79)], 0, 0)"
    by (simp add: sanity_check_fp_single corrected_reading_eq flip_count_def had_correction_iff)
  have ne: "[(noon, 43::real, - 79::real)] \<noteq> []"
    by simp
  have l: "last [(noon, 43::real, - 79::real)] = (noon, 43, - 79)"
    by simp
  have c: "corrected_reading 1 (- 1) (noon_01, 44, - 79) = (noon_01, 44, - 79)"
    by (simp add: corrected_reading_eq)
  have dt: "0 < total_seconds noon_01 noon"
    by (simp add: total_seconds_noon_01)
  have fast: "haversine_fp exact_ops 43 (- 79) 44 (- 79) = Inr (6371000 * 2 * (pi / 360))
              \<and> 300 < f_mul exact_ops (f_div exact_ops (6371000 * 2 * (pi / 360))
                                          (total_seconds noon_01 noon)) 3.6"
    using pi_ge_two
    by (simp add: haversine_one_degree_north total_seconds_noon_01 exact_ops_sel)
  from skipped_unless_domain_error [OF first ne l c dt] fast
  have "sanity_check_fp exact_ops ([(noon, 43, - 79)] @ [(noon_01, 44, - 79)]) 1 (- 1)
          = Inr ([(noon, 43, - 79)], 0 + flip_count 1 (- 1) (noon_01, 44, - 79), 0 + 1)"
    by blast
  then show "sanity_check_fp exact_ops ([(noon, 43, - 79)] @ [(noon_01, 44, - 79)]) 1 (- 1)
          = Inr ([(noon, 43, - 79)], 0, 1)"
    by (simp add: flip_count_def had_correction_iff)
next
  have first: "sanity_check_fp round_up_ops [(noon, - 0.82, 0)] 1 1 = Inr ([(noon, - 0.82, 0)], 0, 0)"
    by (simp add: sanity_check_fp_single corrected_reading_eq flip_count_def had_correction_iff)
  have ne: "[(noon, - 0.82::real, 0::real)] \<noteq> []"
    by simp
  have l: "last [(noon, - 0.82::real, 0::real)] = (noon, - 0.82, 0)"
    by simp
  have c: "corrected_reading 1 1 (noon_01, 0.82, 180) = (noon_01, 0.82, 180)"
    by (simp add: corrected_reading_eq)
  have dt: "0 < total_seconds noon_01 noon"
    by (simp add: total_seconds_noon_01)
  have over: "0 \<le> haversine_a_fp round_up_ops (- 0.82) 0 0.82 180
              \<and> f_sub round_up_ops 1 (haversine_a_fp round_up_ops (- 0.82) 0 0.82 180) < 0"
    by (simp only: haversine_a_antipodal) (simp add: round_up_ops_def exact_ops_def)
  from skipped_unless_domain_error [OF first ne l c dt] over
  show "sanity_check_fp round_up_ops ([(noon, - 0.82, 0)] @ [(noon_01, 0.82, 180)]) 1 1
          = Inl ValueError"
    by blast
qed

text \<open>
  C3. The code on a whole list, for every floating-point arithmetic: the run either
  returns a cleaned sequence and a skipped count that add up to the number of readings,
  or ends in \<open>ValueError\<close> and returns nothing. The second happens in double arithmetic
  on \<open>[(t, -0.82, 0.0), (t + 1 s, 0.82, 180.0)]\<close>.
\<close>

theorem kept_plus_skipped_unless_domain_error:
  "(\<exists>cl fl sk. sanity_check_fp ops points els elo = Inr (cl, fl, sk)
       \<and> int (length cl) + sk = int (length points))
   \<or> sanity_check_fp ops points els elo = Inl ValueError"
proof (induction points rule: rev_induct)
  case Nil
  show ?case by (simp add: sanity_check_fp_Nil)
next
  case (snoc r ps)
  then show ?case
  proof
    assume "\<exists>cl fl sk. sanity_check_fp ops ps els elo = Inr (cl, fl, sk)
              \<and> int (length cl) + sk = int (length ps)"
    then obtain cl fl sk where run: "sanity_check_fp ops ps els elo = Inr (cl, fl, sk)"
      and eq: "int (length cl) + sk = int (length ps)"
      by blast
    from sanity_check_fp_step [OF run, of r] eq show ?thesis
      by auto
  next
    assume "sanity_check_fp ops ps els elo = Inl ValueError"
    then show ?thesis
      by (simp add: sanity_check_fp_raised)
  qed
qed

theorem kept_plus_skipped_unless_domain_error_witness:
  "(\<exists>cl fl sk. sanity_check_fp exact_ops ([(noon, 43, - 79)] @ [(noon_01, 44, - 79)]) 1 (- 1)
                  = Inr (cl, fl, sk) \<and> int (length cl) + sk = 2)
   \<and> sanity_check_fp round_up_ops ([(noon, - 0.82, 0)] @ [(noon_01, 0.82, 180)]) 1 1
       = Inl ValueError"
proof
  from kept_plus_skipped_unless_domain_error
         [of exact_ops "[(noon, 43, - 79)] @ [(noon_01, 44, - 79)]" 1 "- 1"]
  show "\<exists>cl fl sk. sanity_check_fp exact_ops ([(noon, 43, - 79)] @ [(noon_01, 44, - 79)]) 1 (- 1)
                  = Inr (cl, fl, sk) \<and> int (length cl) + sk = 2"
    unfolding run_one_degree_north by simp
  from kept_plus_skipped_unless_domain_error
         [of round_up_ops "[(noon, - 0.82, 0)] @ [(noon_01, 0.82, 180)]" 1 1]
  show "sanity_check_fp round_up_ops ([(noon, - 0.82, 0)] @ [(noon_01, 0.82, 180)]) 1 1
       = Inl ValueError"
    unfolding run_antipodal by simp
qed



text \<open>
  C7. With expected signs \<open>(+1, -1)\<close> the single reading \<open>(t, 43.5, 79.2)\<close> comes out
  as \<open>(t, 43.5, -79.2)\<close> with one correction counted, and the sanity check of that
  result returns it unchanged with no correction counted.
\<close>

theorem sign_correction_idempotent:
  "sanity_check [(t, 43.5, 79.2)] 1 (- 1) = Inr ([(t, 43.5, - 79.2)], 1, 0)
   \<and> sanity_check [(t, 43.5, - 79.2)] 1 (- 1) = Inr ([(t, 43.5, - 79.2)], 0, 0)"
  by (simp add: sanity_check_def sanity_check_fp_single corrected_reading_eq flip_count_def
        had_correction_iff)

theorem sign_correction_idempotent_witness:
  "sanity_check [(noon, 43.5, 79.2)] 1 (- 1) = Inr ([(noon, 43.5, - 79.2)], 1, 0)"
  using sign_correction_idempotent [of noon] by simp

text \<open>
  C10. The corrections counter also counts a reading that is then rejected. After the
  accepted reading \<open>(noon, 0, 0)\<close>, the reading \<open>(noon_01, 0, -180)\<close> under expected signs
  \<open>(+1, +1)\<close> has its longitude negated and is half the globe away one second later: it
  is counted as a correction and skipped. The run ends with one correction counted, while
  the cleaned sequence holds the first reading only, which was not corrected.
\<close>

theorem corrections_count_rejected_readings:
  "sanity_check [(noon, 0, 0)] 1 1 = Inr ([(noon, 0, 0)], 0, 0)
   \<and> had_correction 1 1 (noon_01, 0, - 180)
   \<and> sanity_check [(noon, 0, 0), (noon_01, 0, - 180)] 1 1 = Inr ([(noon, 0, 0)], 1, 1)
   \<and> \<not> had_correction 1 1 (noon, 0, 0)"
proof -
  have first: "sanity_check_fp exact_ops [(noon, 0, 0)] 1 1 = Inr ([(noon, 0, 0)], 0, 0)"
    by (simp add: sanity_check_fp_single corrected_reading_eq flip_count_def had_correction_iff)
  have corr: "had_correction 1 1 (noon_01, 0, - 180)"
    by (simp add: had_correction_iff)
  have "sanity_check_fp exact_ops ([(noon, 0, 0)] @ [(noon_01, 0, - 180)]) 1 1 =
           (case haversine_fp exact_ops 0 0 0 180 of
              Inl e \<Rightarrow> Inl e
            | Inr d \<Rightarrow>
                if 300 < f_mul exact_ops (f_div exact_ops d (total_seconds noon_01 noon)) 3.6
                then Inr ([(noon, 0, 0)], 0 + flip_count 1 1 (noon_01, 0, - 180), 0 + 1)
                else Inr ([(noon, 0, 0)] @ [(noon_01, 0, 180)],
                          0 + flip_count 1 1 (noon_01, 0, - 180), 0))"
    by (rule sanity_check_fp_checked [OF first])
       (simp_all add: corrected_reading_eq total_seconds_noon_01)
  also have "\<dots> = Inr ([(noon, 0, 0)], 1, 1)"
    using pi_ge_two
    by (simp add: haversine_half_turn total_seconds_noon_01 exact_ops_sel flip_count_def corr)
  finally have "sanity_check [(noon, 0, 0), (noon_01, 0, - 180)] 1 1 = Inr ([(noon, 0, 0)], 1, 1)"
    by (simp add: sanity_check_def)
  moreover have "\<not> had_correction 1 1 (noon, 0, 0)"
    by (simp add: had_correction_iff)
  ultimately show ?thesis using first corr by (simp add: sanity_check_def)
qed

theorem corrections_count_rejected_readings_witness:
  "\<exists>points cl fl sk. sanity_check points 1 1 = Inr (cl, fl, sk) \<and> int (length cl) \<le> fl \<and> 0 < sk"
  using corrections_count_rejected_readings
  by (intro exI [of _ "[(noon, 0, 0), (noon_01, 0, - 180)]"] exI [of _ "[(noon, 0, 0)]"]
        exI [of _ 1]) simp

lemma sign_disagrees:
  fixes x :: real and e :: int
  assumes "e \<in> {- 1, 1}" and "\<bar>x\<bar> > 1"
  shows "x * of_int e < 0 \<longleftrightarrow> sgn x \<noteq> of_int e"
proof -
  from assms(2) have nz: "x < - 1 \<or> 1 < x" by linarith
  from assms(1) have "e = - 1 \<or> e = 1" by simp
  then show ?thesis
  proof
    assume "e = - 1"
    with nz show ?thesis by (cases "0 < x") (simp_all add: sgn_real_def)
  next
    assume "e = 1"
    with nz show ?thesis by (cases "0 < x") (simp_all add: sgn_real_def)
  qed
qed

text \<open>
  C2. With expected signs in \<open>{-1, +1}\<close>, for every floating-point arithmetic and every
  step of a run that returns: the latitude is negated exactly when its magnitude exceeds 1
  and its sign differs from the expected one, and likewise, on its own, the longitude; a
  value of magnitude at most 1 is left as it is; the corrections counter grows by one when
  at least one of the two was negated and by nothing otherwise; the reading that is
  appended is the corrected one; and the reading is skipped exactly when there is an
  anchor, time has passed since it, and the speed computed from the anchor to the
  corrected coordinates exceeds 300.
\<close>

theorem sign_correction_exact:
  assumes "els \<in> {- 1, 1}" and "elo \<in> {- 1, 1}"
    and "sanity_check_fp ops pre els elo = Inr (cl, fl, sk)"
    and "sanity_check_fp ops (pre @ [(t, lat, lon)]) els elo = Inr (cl', fl', sk')"
    and "lat' = (if \<bar>lat\<bar> > 1 \<and> sgn lat \<noteq> of_int els then - lat else lat)"
    and "lon' = (if \<bar>lon\<bar> > 1 \<and> sgn lon \<noteq> of_int elo then - lon else lon)"
  shows "correct_sign lat lon els elo = (lat', lon', [lat' \<noteq> lat, lon' \<noteq> lon])
       \<and> (\<bar>lat\<bar> \<le> 1 \<longrightarrow> lat' = lat)
       \<and> (\<bar>lon\<bar> \<le> 1 \<longrightarrow> lon' = lon)
       \<and> fl' = fl + (if lat' \<noteq> lat \<or> lon' \<noteq> lon then 1 else 0)
       \<and> (cl' = cl @ [(t, lat', lon')] \<and> sk' = sk \<or> cl' = cl \<and> sk' = sk + 1)
       \<and> (cl' = cl \<longleftrightarrow>
            cl \<noteq> [] \<and> 0 < total_seconds t (fst (last cl))
            \<and> (\<exists>d. haversine_fp ops (fst (snd (last cl))) (snd (snd (last cl))) lat' lon' = Inr d
                   \<and> 300 < f_mul ops (f_div ops d (total_seconds t (fst (last cl)))) 3.6))"
proof -
  have flat: "(\<bar>lat\<bar> > 1 \<and> lat * of_int els < 0) \<longleftrightarrow> lat' \<noteq> lat"
    using sign_disagrees [OF assms(1), of lat] by (auto simp: assms(5))
  have flon: "(\<bar>lon\<bar> > 1 \<and> lon * of_int elo < 0) \<longleftrightarrow> lon' \<noteq> lon"
    using sign_disagrees [OF assms(2), of lon] by (auto simp: assms(6))
  have lat': "lat' = (if \<bar>lat\<bar> > 1 \<and> lat * of_int els < 0 then - lat else lat)"
    using sign_disagrees [OF assms(1), of lat] by (auto simp: assms(5))
  have lon': "lon' = (if \<bar>lon\<bar> > 1 \<and> lon * of_int elo < 0 then - lon else lon)"
    using sign_disagrees [OF assms(2), of lon] by (auto simp: assms(6))
  have cs: "correct_sign lat lon els elo = (lat', lon', [lat' \<noteq> lat, lon' \<noteq> lon])"
    unfolding correct_sign_eq flat flon by (simp add: lat' lon')
  have cr: "corrected_reading els elo (t, lat, lon) = (t, lat', lon')"
    by (simp add: corrected_reading_eq lat' lon')
  have fc: "flip_count els elo (t, lat, lon) = (if lat' \<noteq> lat \<or> lon' \<noteq> lon then 1 else 0)"
    by (simp add: flip_count_def had_correction_iff flat flon)
  have small: "(\<bar>lat\<bar> \<le> 1 \<longrightarrow> lat' = lat) \<and> (\<bar>lon\<bar> \<le> 1 \<longrightarrow> lon' = lon)"
    by (simp add: assms(5,6))
  have step: "fl' = fl + (if lat' \<noteq> lat \<or> lon' \<noteq> lon then 1 else 0)
       \<and> (cl' = cl @ [(t, lat', lon')] \<and> sk' = sk \<or> cl' = cl \<and> sk' = sk + 1)
       \<and> (cl' = cl \<longleftrightarrow>
            cl \<noteq> [] \<and> 0 < total_seconds t (fst (last cl))
            \<and> (\<exists>d. haversine_fp ops (fst (snd (last cl))) (snd (snd (last cl))) lat' lon' = Inr d
                   \<and> 300 < f_mul ops (f_div ops d (total_seconds t (fst (last cl)))) 3.6))"
  proof (cases "cl = [] \<or> total_seconds t (fst (last cl)) \<le> 0")
    case True
    then have "cl = [] \<or> total_seconds (fst (t, lat, lon)) (fst (last cl)) \<le> 0"
      by simp
    from sanity_check_fp_unchecked [OF assms(3) this] assms(4) True show ?thesis
      by (auto simp: cr fc)
  next
    case False
    then have ne: "cl \<noteq> []" and dt: "0 < total_seconds t (fst (last cl))"
      by auto
    have l: "last cl = (fst (last cl), fst (snd (last cl)), snd (snd (last cl)))"
      by simp
    note chk = sanity_check_fp_checked [OF assms(3) ne l cr dt]
    show ?thesis
    proof (cases "haversine_fp ops (fst (snd (last cl))) (snd (snd (last cl))) lat' lon'")
      case (Inl e)
      with chk assms(4) show ?thesis by simp
    next
      case (Inr d)
      with chk assms(4) ne dt show ?thesis
        by (auto simp: fc split: if_splits)
    qed
  qed
  from cs small step show ?thesis by blast
qed

lemma run_corrected_then_checked:
  "sanity_check_fp exact_ops ([(noon, 43, - 79)] @ [(noon_01, 43, 79)]) 1 (- 1)
     = Inr ([(noon, 43, - 79), (noon_01, 43, - 79)], 1, 0)"
proof -
  have first: "sanity_check_fp exact_ops [(noon, 43, - 79)] 1 (- 1) = Inr ([(noon, 43, - 79)], 0, 0)"
    by (simp add: sanity_check_fp_single corrected_reading_eq flip_count_def had_correction_iff)
  have "sanity_check_fp exact_ops ([(noon, 43, - 79)] @ [(noon_01, 43, 79)]) 1 (- 1) =
           (case haversine_fp exact_ops 43 (- 79) 43 (- 79) of
              Inl e \<Rightarrow> Inl e
            | Inr d \<Rightarrow>
                if 300 < f_mul exact_ops (f_div exact_ops d (total_seconds noon_01 noon)) 3.6
                then Inr ([(noon, 43, - 79)], 0 + flip_count 1 (- 1) (noon_01, 43, 79), 0 + 1)
                else Inr ([(noon, 43, - 79)] @ [(noon_01, 43, - 79)],
                          0 + flip_count 1 (- 1) (noon_01, 43, 79), 0))"
    by (rule sanity_check_fp_checked [OF first])
       (simp_all add: corrected_reading_eq total_seconds_noon_01)
  also have "\<dots> = Inr ([(noon, 43, - 79), (noon_01, 43, - 79)], 1, 0)"
    by (simp add: haversine_same_point total_seconds_noon_01 exact_ops_sel
          flip_count_def had_correction_iff)
  finally show ?thesis .
qed

theorem sign_correction_exact_witness:
  "correct_sign 43 79 1 (- 1) = (43, - 79, [False, True])
   \<and> sanity_check_fp exact_ops ([(noon, 43, - 79)] @ [(noon_01, 43, 79)]) 1 (- 1)
       = Inr ([(noon, 43, - 79), (noon_01, 43, - 79)], 1, 0)"
proof -
  have s: "(1::int) \<in> {- 1, 1}" "(- 1::int) \<in> {- 1, 1}"
    by simp_all
  have first: "sanity_check_fp exact_ops [(noon, 43, - 79)] 1 (- 1) = Inr ([(noon, 43, - 79)], 0, 0)"
    by (simp add: sanity_check_fp_single corrected_reading_eq flip_count_def had_correction_iff)
  have la: "(43::real) = (if \<bar>43::real\<bar> > 1 \<and> sgn (43::real) \<noteq> of_int 1 then - 43 else 43)"
    by simp
  have lo: "(- 79::real) = (if \<bar>79::real\<bar> > 1 \<and> sgn (79::real) \<noteq> of_int (- 1) then - 79 else 79)"
    by simp
  from sign_correction_exact [OF s first run_corrected_then_checked la lo]
  have "correct_sign 43 79 1 (- 1) = (43, - 79, [(43::real) \<noteq> 43, (- 79::real) \<noteq> 79])"
    by (rule conjunct1)
  then show ?thesis
    using run_corrected_then_checked by simp
qed

lemma corrected_reading_frame:
  "fst (corrected_reading els elo r) = fst r
   \<and> \<bar>fst (snd (corrected_reading els elo r))\<bar> = \<bar>fst (snd r)\<bar>
   \<and> \<bar>snd (snd (corrected_reading els elo r))\<bar> = \<bar>snd (snd r)\<bar>"
  by (cases r) (simp add: corrected_reading_eq)

lemma cleaned_subseq:
  assumes "sanity_check_fp ops points els elo = Inr (cl, fl, sk)"
  shows "subseq cl (map (corrected_reading els elo) points)"
  using assms
proof (induction points arbitrary: cl fl sk rule: rev_induct)
  case Nil
  then show ?case by (simp add: sanity_check_fp_Nil)
next
  case (snoc r ps)
  from sanity_check_fp_prefix [OF snoc.prems]
  obtain cl0 fl0 sk0 where run: "sanity_check_fp ops ps els elo = Inr (cl0, fl0, sk0)"
    by blast
  then have sub: "subseq cl0 (map (corrected_reading els elo) ps)"
    by (rule snoc.IH)
  from sub have "subseq (cl0 @ [corrected_reading els elo r])
                        (map (corrected_reading els elo) ps @ [corrected_reading els elo r])"
    by (intro list_emb_append_mono) simp_all
  moreover from sub have "subseq cl0 (map (corrected_reading els elo) ps @ [corrected_reading els elo r])"
    by (rule list_emb_prefix)
  ultimately show ?case
    using sanity_check_fp_step [OF run, of r] snoc.prems by auto
qed

text \<open>
  C9. For every floating-point arithmetic, the cleaned sequence that a run returns is a
  subsequence, in the original order, of the sign-corrected readings, and each of its
  elements is the correction of an input reading with the same timestamp and the same
  absolute latitude and longitude.
\<close>

theorem only_signs_change:
  assumes "sanity_check_fp ops points els elo = Inr (cl, fl, sk)"
  shows "subseq cl (map (corrected_reading els elo) points)
       \<and> (\<forall>r' \<in> set cl. \<exists>r \<in> set points.
            r' = corrected_reading els elo r
          \<and> fst r' = fst r
          \<and> \<bar>fst (snd r')\<bar> = \<bar>fst (snd r)\<bar>
          \<and> \<bar>snd (snd r')\<bar> = \<bar>snd (snd r)\<bar>)"
proof
  show sub: "subseq cl (map (corrected_reading els elo) points)"
    using assms by (rule cleaned_subseq)
  show "\<forall>r' \<in> set cl. \<exists>r \<in> set points.
            r' = corrected_reading els elo r
          \<and> fst r' = fst r
          \<and> \<bar>fst (snd r')\<bar> = \<bar>fst (snd r)\<bar>
          \<and> \<bar>snd (snd r')\<bar> = \<bar>snd (snd r)\<bar>"
  proof
    fix r'
    assume "r' \<in> set cl"
    with sub have "r' \<in> set (map (corrected_reading els elo) points)"
      using list_emb_set [of "(=)" cl "map (corrected_reading els elo) points" r'] by auto
    then obtain r where "r \<in> set points" and "r' = corrected_reading els elo r"
      by auto
    then show "\<exists>r \<in> set points.
            r' = corrected_reading els elo r
          \<and> fst r' = fst r
          \<and> \<bar>fst (snd r')\<bar> = \<bar>fst (snd r)\<bar>
          \<and> \<bar>snd (snd r')\<bar> = \<bar>snd (snd r)\<bar>"
      using corrected_reading_frame [of els elo r] by blast
  qed
qed

lemma run_skip_then_keep:
  "sanity_check_fp exact_ops (([(noon, 43, 79)] @ [(noon_01, 44, 79)]) @ [(noon_01, 43, 79)]) 1 (- 1)
     = Inr ([(noon, 43, - 79), (noon_01, 43, - 79)], 3, 1)"
proof -
  have first: "sanity_check_fp exact_ops [(noon, 43, 79)] 1 (- 1) = Inr ([(noon, 43, - 79)], 1, 0)"
    by (simp add: sanity_check_fp_single corrected_reading_eq flip_count_def had_correction_iff)
  have "sanity_check_fp exact_ops ([(noon, 43, 79)] @ [(noon_01, 44, 79)]) 1 (- 1) =
           (case haversine_fp exact_ops 43 (- 79) 44 (- 79) of
              Inl e \<Rightarrow> Inl e
            | Inr d \<Rightarrow>
                if 300 < f_mul exact_ops (f_div exact_ops d (total_seconds noon_01 noon)) 3.6
                then Inr ([(noon, 43, - 79)], 1 + flip_count 1 (- 1) (noon_01, 44, 79), 0 + 1)
                else Inr ([(noon, 43, - 79)] @ [(noon_01, 44, - 79)],
                          1 + flip_count 1 (- 1) (noon_01, 44, 79), 0))"
    by (rule sanity_check_fp_checked [OF first])
       (simp_all add: corrected_reading_eq total_seconds_noon_01)
  also have "\<dots> = Inr ([(noon, 43, - 79)], 2, 1)"
    using pi_ge_two
    by (simp add: haversine_one_degree_north total_seconds_noon_01 exact_ops_sel
          flip_count_def had_correction_iff)
  finally have second:
    "sanity_check_fp exact_ops ([(noon, 43, 79)] @ [(noon_01, 44, 79)]) 1 (- 1)
       = Inr ([(noon, 43, - 79)], 2, 1)" .
  have "sanity_check_fp exact_ops (([(noon, 43, 79)] @ [(noon_01, 44, 79)]) @ [(noon_01, 43, 79)]) 1 (- 1) =
           (case haversine_fp exact_ops 43 (- 79) 43 (- 79) of
              Inl e \<Rightarrow> Inl e
            | Inr d \<Rightarrow>
                if 300 < f_mul exact_ops (f_div exact_ops d (total_seconds noon_01 noon)) 3.6
                then Inr ([(noon, 43, - 79)], 2 + flip_count 1 (- 1) (noon_01, 43, 79), 1 + 1)
                else Inr ([(noon, 43, - 79)] @ [(noon_01, 43, - 79)],
                          2 + flip_count 1 (- 1) (noon_01, 43, 79), 1))"
    by (rule sanity_check_fp_checked [OF second])
       (simp_all add: corrected_reading_eq total_seconds_noon_01)
  also have "\<dots> = Inr ([(noon, 43, - 79), (noon_01, 43, - 79)], 3, 1)"
    by (simp add: haversine_same_point total_seconds_noon_01 exact_ops_sel
          flip_count_def had_correction_iff)
  finally show ?thesis .
qed

theorem only_signs_change_witness:
  "sanity_check_fp exact_ops (([(noon, 43, 79)] @ [(noon_01, 44, 79)]) @ [(noon_01, 43, 79)]) 1 (- 1)
     = Inr ([(noon, 43, - 79), (noon_01, 43, - 79)], 3, 1)
   \<and> subseq [(noon, 43, - 79), (noon_01, 43, - 79)]
        [(noon, 43, - 79), (noon_01, 44, - 79), (noon_01, 43, - 79)]"
proof -
  from only_signs_change [OF run_skip_then_keep]
  have "subseq [(noon, 43, - 79), (noon_01, 43, - 79)]
          (map (corrected_reading 1 (- 1))
             (([(noon, 43, 79)] @ [(noon_01, 44, 79)]) @ [(noon_01, 43, 79)]))"
    by (rule conjunct1)
  then have "subseq [(noon, 43, - 79), (noon_01, 43, - 79)]
        [(noon, 43, - 79), (noon_01, 44, - 79), (noon_01, 43, - 79)]"
    by (simp add: corrected_reading_eq)
  with run_skip_then_keep show ?thesis by simp
qed

subsection \<open>The matcher finds exactly the words of the pattern\<close>

lemma takeWhile_run:
  assumes "\<forall>c \<in> set w. cls c"
  shows "length w \<le> length (takeWhile cls (w @ r))"
  using assms by (induction w) simp_all

lemma take_run_all:
  assumes "k \<le> length (takeWhile cls s)"
  shows "\<forall>c \<in> set (take k s). cls c"
proof -
  have "take k s = take k (takeWhile cls s)"
    using assms
    by (metis append_eq_conv_conj min.absorb2 takeWhile_dropWhile_id take_append take_all_iff
          append_Nil2 diff_is_0_eq take_0)
  then show ?thesis
    by (metis in_set_takeD set_takeWhileD)
qed

lemma set_rep_splits:
  "set (rep_splits cls lo hi s) =
     (\<lambda>k. (take k s, drop k s)) `
       {k. lo \<le> k \<and> k \<le> length (takeWhile cls s)
           \<and> (case hi of None \<Rightarrow> True | Some h \<Rightarrow> k \<le> h)}"
proof -
  define n where "n = (case hi of None \<Rightarrow> length (takeWhile cls s)
                        | Some h \<Rightarrow> min h (length (takeWhile cls s)))"
  have "{lo..<Suc n} = {k. lo \<le> k \<and> k \<le> length (takeWhile cls s)
           \<and> (case hi of None \<Rightarrow> True | Some h \<Rightarrow> k \<le> h)}"
    by (auto simp: n_def split: option.splits)
  moreover have "set (rep_splits cls lo hi s) = (\<lambda>k. (take k s, drop k s)) ` {lo..<Suc n}"
    by (simp only: rep_splits_def Let_def n_def set_map set_rev set_upt)
  ultimately show ?thesis by simp
qed

lemma rep_splits_iff:
  "(w, r) \<in> set (rep_splits cls lo hi s) \<longleftrightarrow> s = w @ r \<and> w \<in> rep_lang (Rep cls lo hi)"
proof
  assume "(w, r) \<in> set (rep_splits cls lo hi s)"
  then obtain k where k: "lo \<le> k" "k \<le> length (takeWhile cls s)"
      "case hi of None \<Rightarrow> True | Some h \<Rightarrow> k \<le> h"
    and w: "w = take k s" and r: "r = drop k s"
    unfolding set_rep_splits by auto
  have "k \<le> length s"
    using k(2) length_takeWhile_le [of cls s] by linarith
  then have "length w = k" by (simp add: w)
  with k take_run_all [OF k(2)] w r show "s = w @ r \<and> w \<in> rep_lang (Rep cls lo hi)"
    by (auto split: option.splits)
next
  assume a: "s = w @ r \<and> w \<in> rep_lang (Rep cls lo hi)"
  then have "length w \<le> length (takeWhile cls s)"
    using takeWhile_run [of w cls r] by simp
  with a have "length w \<in> {k. lo \<le> k \<and> k \<le> length (takeWhile cls s)
           \<and> (case hi of None \<Rightarrow> True | Some h \<Rightarrow> k \<le> h)}"
    by simp
  moreover from a have "(w, r) = (take (length w) s, drop (length w) s)"
    by simp
  ultimately show "(w, r) \<in> set (rep_splits cls lo hi s)"
    unfolding set_rep_splits by (rule image_eqI [rotated])
qed

lemma match_items_iff:
  "(ws, r) \<in> set (match_items its s) \<longleftrightarrow>
     list_all2 (\<lambda>w it. w \<in> rep_lang it) ws its \<and> s = concat ws @ r"
proof (induction its arbitrary: s ws)
  case Nil
  show ?case by auto
next
  case (Cons it its)
  obtain cls lo hi where it: "it = Rep cls lo hi" by (cases it)
  show ?case
  proof
    assume "(ws, r) \<in> set (match_items (it # its) s)"
    then obtain w rest ws' where "(w, rest) \<in> set (rep_splits cls lo hi s)"
      and "(ws', r) \<in> set (match_items its rest)" and "ws = w # ws'"
      unfolding it by auto
    then show "list_all2 (\<lambda>w it. w \<in> rep_lang it) ws (it # its) \<and> s = concat ws @ r"
      using Cons.IH [of ws' rest] rep_splits_iff [of w rest cls lo hi s] it by simp
  next
    assume a: "list_all2 (\<lambda>w it. w \<in> rep_lang it) ws (it # its) \<and> s = concat ws @ r"
    then obtain w ws' where ws: "ws = w # ws'" and w: "w \<in> rep_lang it"
      and rest: "list_all2 (\<lambda>w it. w \<in> rep_lang it) ws' its"
      by (auto simp: list_all2_Cons2)
    from a ws have s: "s = w @ (concat ws' @ r)" by simp
    then have "(w, concat ws' @ r) \<in> set (rep_splits cls lo hi s)"
      using rep_splits_iff [of w "concat ws' @ r" cls lo hi s] w it by simp
    moreover have "(ws', r) \<in> set (match_items its (concat ws' @ r))"
      using Cons.IH [of ws' "concat ws' @ r"] rest by simp
    ultimately show "(ws, r) \<in> set (match_items (it # its) s)"
      unfolding it ws by force
  qed
qed

lemma match_items_empty_iff:
  "match_items its s = [] \<longleftrightarrow> \<not> (\<exists>m post. s = m @ post \<and> m \<in> pattern_lang its)"
proof -
  have "match_items its s \<noteq> [] \<longleftrightarrow> (\<exists>ws r. (ws, r) \<in> set (match_items its s))"
    by (cases "match_items its s") auto
  also have "\<dots> \<longleftrightarrow> (\<exists>m post. s = m @ post \<and> m \<in> pattern_lang its)"
    unfolding match_items_iff pattern_lang_def by blast
  finally show ?thesis by blast
qed

lemma search_None_iff: "search its s = None \<longleftrightarrow> \<not> occurs its s"
proof (induction s)
  case Nil
  show ?case
    using match_items_empty_iff [of its "[]"]
    by (auto simp: occurs_def split: list.splits)
next
  case (Cons c s)
  have "occurs its (c # s) \<longleftrightarrow>
          (\<exists>m post. c # s = m @ post \<and> m \<in> pattern_lang its) \<or> occurs its s"
  proof
    assume "occurs its (c # s)"
    then obtain pre m post where e: "c # s = pre @ m @ post" and m: "m \<in> pattern_lang its"
      unfolding occurs_def by blast
    show "(\<exists>m post. c # s = m @ post \<and> m \<in> pattern_lang its) \<or> occurs its s"
    proof (cases pre)
      case Nil
      with e m show ?thesis by auto
    next
      case (Cons p pre')
      with e have "s = pre' @ m @ post" by simp
      with m show ?thesis unfolding occurs_def by blast
    qed
  next
    assume "(\<exists>m post. c # s = m @ post \<and> m \<in> pattern_lang its) \<or> occurs its s"
    then show "occurs its (c # s)"
    proof
      assume "\<exists>m post. c # s = m @ post \<and> m \<in> pattern_lang its"
      then obtain m post where "c # s = [] @ m @ post" and "m \<in> pattern_lang its"
        by auto
      then show ?thesis unfolding occurs_def by blast
    next
      assume "occurs its s"
      then obtain pre m post where "s = pre @ m @ post" and m: "m \<in> pattern_lang its"
        unfolding occurs_def by blast
      then have "c # s = (c # pre) @ m @ post" by simp
      with m show ?thesis unfolding occurs_def by blast
    qed
  qed
  with Cons.IH match_items_empty_iff [of its "c # s"] show ?case
    by (auto split: list.splits)
qed

lemma search_Some_sound:
  assumes "search its s = Some ws"
  shows "list_all2 (\<lambda>w it. w \<in> rep_lang it) ws its \<and> (\<exists>pre post. s = pre @ concat ws @ post)"
  using assms
proof (induction s)
  case Nil
  then obtain m ms where "match_items its [] = m # ms" and "ws = fst m"
    by (cases "match_items its []") simp_all
  then have "(ws, snd m) \<in> set (match_items its [])"
    by simp
  then show ?case
    using match_items_iff [of ws "snd m" its "[]"] by auto
next
  case (Cons c s)
  show ?case
  proof (cases "match_items its (c # s)")
    case Nil
    with Cons have "list_all2 (\<lambda>w it. w \<in> rep_lang it) ws its"
      and "\<exists>pre post. s = pre @ concat ws @ post"
      by simp_all
    then obtain pre post where "c # s = (c # pre) @ concat ws @ post"
      by auto
    with \<open>list_all2 (\<lambda>w it. w \<in> rep_lang it) ws its\<close> show ?thesis by blast
  next
    case (Cons m ms)
    with Cons.prems have "ws = fst m" by simp
    with Cons have "(ws, snd m) \<in> set (match_items its (c # s))"
      by simp
    then have "list_all2 (\<lambda>w it. w \<in> rep_lang it) ws its" and "c # s = [] @ concat ws @ snd m"
      using match_items_iff [of ws "snd m" its "c # s"] by simp_all
    then show ?thesis by blast
  qed
qed

subsection \<open>The groups of a match are numbers and letters\<close>

lemma opt_class_lang: "w \<in> rep_lang (Rep cls 0 (Some 1)) \<longleftrightarrow> w = [] \<or> (\<exists>c. w = [c] \<and> cls c)"
  by (cases w) auto

lemma minus_lang: "m \<in> rep_lang (Rep is_minus 0 (Some 1)) \<longleftrightarrow> m = [] \<or> m = ''-''"
  unfolding opt_class_lang by (auto simp: is_minus_def)

lemma dot_lang: "p \<in> rep_lang (Rep is_dot 1 (Some 1)) \<longleftrightarrow> p = ''.''"
  by (cases p) (auto simp: is_dot_def)

lemma digits_lang:
  assumes "d \<in> rep_lang (Rep is_digit 1 hi)"
  shows "d \<noteq> []" and "\<forall>c \<in> set d. is_digit c"
  using assms by auto


lemma is_ns_iff: "is_ns c \<longleftrightarrow> c = CHR ''N'' \<or> c = CHR ''n'' \<or> c = CHR ''S'' \<or> c = CHR ''s''"
  by (simp add: is_ns_def)

lemma is_ew_iff: "is_ew c \<longleftrightarrow> c = CHR ''E'' \<or> c = CHR ''e'' \<or> c = CHR ''W'' \<or> c = CHR ''w''"
  by (simp add: is_ew_def)

lemma ns_lang:
  "w \<in> rep_lang (Rep is_ns 0 (Some 1)) \<longleftrightarrow> w = [] \<or> w = ''N'' \<or> w = ''n'' \<or> w = ''S'' \<or> w = ''s''"
  unfolding opt_class_lang is_ns_iff by blast

lemma ew_lang:
  "w \<in> rep_lang (Rep is_ew 0 (Some 1)) \<longleftrightarrow> w = [] \<or> w = ''E'' \<or> w = ''e'' \<or> w = ''W'' \<or> w = ''w''"
  unfolding opt_class_lang is_ew_iff by blast


lemma py_float_shape:
  assumes "m = [] \<or> m = ''-''"
    and "d \<noteq> []" and "\<forall>c \<in> set d. is_digit c"
    and "f \<noteq> []" and "\<forall>c \<in> set f. is_digit c"
  shows "py_float (m @ d @ ''.'' @ f) =
           Inr ((if m = [] then 1 else - 1)
                * (real (digits_val d) + real (digits_val f) / 10 ^ length f))"
proof -
  have nd: "\<not> is_digit CHR ''.''" "\<not> is_digit CHR ''-''"
    by (simp_all add: is_digit_def)
  have tw: "takeWhile is_digit (d @ ''.'' @ f) = d"
    using assms(3) nd by (simp add: takeWhile_append2)
  have dw: "dropWhile is_digit (d @ ''.'' @ f) = ''.'' @ f"
    using assms(3) nd by (simp add: dropWhile_append2)
  have hd: "hd (d @ ''.'' @ f) \<noteq> CHR ''-''"
    using assms(2,3) nd by (cases d) auto
  from assms(1) show ?thesis
  proof
    assume "m = []"
    with tw dw hd assms(2,4,5) show ?thesis
      by (simp add: py_float_def Let_def list_all_iff)
  next
    assume "m = ''-''"
    with tw dw assms(2,4,5) show ?thesis
      by (simp add: py_float_def Let_def list_all_iff)
  qed
qed

lemma number_float:
  assumes "list_all2 (\<lambda>w it. w \<in> rep_lang it) us number_items"
  shows "\<exists>v. py_float (concat us) = Inr v"
proof -
  from assms obtain m d p f where us: "us = [m, d, p, f]"
    and m: "m \<in> rep_lang (Rep is_minus 0 (Some 1))"
    and d: "d \<in> rep_lang (Rep is_digit 1 (Some 3))"
    and p: "p \<in> rep_lang (Rep is_dot 1 (Some 1))"
    and f: "f \<in> rep_lang (Rep is_digit 1 None)"
    unfolding number_items_def by (auto simp: list_all2_Cons2)
  from p have p': "p = ''.''" by (simp only: dot_lang)
  from m have m': "m = [] \<or> m = ''-''" by (simp only: minus_lang)
  show ?thesis
    using py_float_shape [OF m' digits_lang [OF d] digits_lang [OF f]]
    by (simp add: us p')
qed



lemma list_all2_appendE:
  assumes "list_all2 P ws (ys @ zs)"
  obtains us vs where "ws = us @ vs" and "list_all2 P us ys" and "list_all2 P vs zs"
  using assms by (auto simp: list_all2_append2)

lemma list_all2_ConsE:
  assumes "list_all2 P ws (y # ys)"
  obtains w ws' where "ws = w # ws'" and "P w y" and "list_all2 P ws' ys"
  using assms by (auto simp: list_all2_Cons2)

lemma pattern_match_split:
  assumes "list_all2 (\<lambda>w it. w \<in> rep_lang it) ws pattern"
  obtains n1 s1 ns fl n2 s2 ew where
    "ws = n1 @ [s1, ns, fl] @ n2 @ [s2, ew]"
    and "length n1 = 4" and "length n2 = 4"
    and "list_all2 (\<lambda>w it. w \<in> rep_lang it) n1 number_items"
    and "list_all2 (\<lambda>w it. w \<in> rep_lang it) n2 number_items"
    and "ns \<in> rep_lang (Rep is_ns 0 (Some 1))"
    and "ew \<in> rep_lang (Rep is_ew 0 (Some 1))"
proof -
  let ?P = "\<lambda>w it. w \<in> rep_lang it"
  from assms have "list_all2 ?P ws
      (number_items @ (Rep is_sep 0 None # Rep is_ns 0 (Some 1) # Rep is_filler 0 None #
         (number_items @ [Rep is_sep 0 None, Rep is_ew 0 (Some 1)])))"
    by (simp only: pattern_def append.simps)
  then obtain n1 r1 where w1: "ws = n1 @ r1" and n1: "list_all2 ?P n1 number_items"
    and r1: "list_all2 ?P r1 (Rep is_sep 0 None # Rep is_ns 0 (Some 1) # Rep is_filler 0 None #
         (number_items @ [Rep is_sep 0 None, Rep is_ew 0 (Some 1)]))"
    by (rule list_all2_appendE)
  from r1 obtain s1 ra where wa: "r1 = s1 # ra"
    and ra: "list_all2 ?P ra (Rep is_ns 0 (Some 1) # Rep is_filler 0 None #
         (number_items @ [Rep is_sep 0 None, Rep is_ew 0 (Some 1)]))"
    by (rule list_all2_ConsE)
  from ra obtain ns rb where wb: "ra = ns # rb" and ns: "ns \<in> rep_lang (Rep is_ns 0 (Some 1))"
    and rb: "list_all2 ?P rb (Rep is_filler 0 None #
         (number_items @ [Rep is_sep 0 None, Rep is_ew 0 (Some 1)]))"
    by (rule list_all2_ConsE)
  from rb obtain fl r2 where wc: "rb = fl # r2"
    and r2: "list_all2 ?P r2 (number_items @ [Rep is_sep 0 None, Rep is_ew 0 (Some 1)])"
    by (rule list_all2_ConsE)
  from r2 obtain n2 r3 where w3: "r2 = n2 @ r3" and n2: "list_all2 ?P n2 number_items"
    and r3: "list_all2 ?P r3 [Rep is_sep 0 None, Rep is_ew 0 (Some 1)]"
    by (rule list_all2_appendE)
  from r3 obtain s2 rc where wd: "r3 = s2 # rc"
    and rc: "list_all2 ?P rc [Rep is_ew 0 (Some 1)]"
    by (rule list_all2_ConsE)
  from rc obtain ew rd where we: "rc = ew # rd" and ew: "ew \<in> rep_lang (Rep is_ew 0 (Some 1))"
    and rd: "list_all2 ?P rd []"
    by (rule list_all2_ConsE)
  from rd have rd': "rd = []" by simp
  have len: "length n1 = 4" "length n2 = 4"
    using list_all2_lengthD [OF n1] list_all2_lengthD [OF n2] by (simp_all add: number_items_def)
  have "ws = n1 @ [s1, ns, fl] @ n2 @ [s2, ew]"
    by (simp add: w1 wa wb wc w3 wd we rd')
  then show thesis
    using len n1 n2 ns ew by (rule that)
qed

lemma groups_of_split:
  assumes "length n1 = 4" and "length n2 = 4"
  shows "group1 (n1 @ [s1, ns, fl] @ n2 @ [s2, ew]) = concat n1"
    and "group2 (n1 @ [s1, ns, fl] @ n2 @ [s2, ew]) = ns"
    and "group3 (n1 @ [s1, ns, fl] @ n2 @ [s2, ew]) = concat n2"
    and "group4 (n1 @ [s1, ns, fl] @ n2 @ [s2, ew]) = ew"
  using assms by (simp_all add: group1_def group2_def group3_def group4_def)

subsection \<open>Claims about the parser\<close>

lemma upper_letters:
  "upper ''S'' = ''S''" "upper ''s'' = ''S''" "upper ''N'' = ''N''" "upper ''n'' = ''N''"
  "upper ''W'' = ''W''" "upper ''w'' = ''W''" "upper ''E'' = ''E''" "upper ''e'' = ''E''"
  by code_simp+

lemma extract_of_match:
  assumes "search pattern text = Some m"
  shows "\<exists>lat0 lon0.
           py_float (group1 m) = Inr lat0 \<and> py_float (group3 m) = Inr lon0
         \<and> extract_coords_from_text text =
             Inr (Some (if group2 m = ''S'' \<or> group2 m = ''s'' then - \<bar>lat0\<bar>
                        else if group2 m = ''N'' \<or> group2 m = ''n'' then \<bar>lat0\<bar> else lat0,
                        if group4 m = ''W'' \<or> group4 m = ''w'' then - \<bar>lon0\<bar>
                        else if group4 m = ''E'' \<or> group4 m = ''e'' then \<bar>lon0\<bar> else lon0))"
proof -
  from search_Some_sound [OF assms]
  have "list_all2 (\<lambda>w it. w \<in> rep_lang it) m pattern" ..
  then obtain n1 s1 ns fl n2 s2 ew where m: "m = n1 @ [s1, ns, fl] @ n2 @ [s2, ew]"
    and len: "length n1 = 4" "length n2 = 4"
    and n1: "list_all2 (\<lambda>w it. w \<in> rep_lang it) n1 number_items"
    and n2: "list_all2 (\<lambda>w it. w \<in> rep_lang it) n2 number_items"
    and ns: "ns \<in> rep_lang (Rep is_ns 0 (Some 1))"
    and ew: "ew \<in> rep_lang (Rep is_ew 0 (Some 1))"
    by (rule pattern_match_split)
  have g: "group1 m = concat n1" "group2 m = ns" "group3 m = concat n2" "group4 m = ew"
    unfolding m using len by (rule groups_of_split)+
  obtain lat0 where lat0: "py_float (group1 m) = Inr lat0"
    using number_float [OF n1] g(1) by auto
  obtain lon0 where lon0: "py_float (group3 m) = Inr lon0"
    using number_float [OF n2] g(3) by auto
  from ns have nsc: "ns = [] \<or> ns = ''N'' \<or> ns = ''n'' \<or> ns = ''S'' \<or> ns = ''s''"
    by (simp only: ns_lang)
  from ew have ewc: "ew = [] \<or> ew = ''E'' \<or> ew = ''e'' \<or> ew = ''W'' \<or> ew = ''w''"
    by (simp only: ew_lang)
  have latv: "(if ns \<noteq> [] then (if upper ns = ''S'' then - \<bar>lat0\<bar> else \<bar>lat0\<bar>) else lat0)
                = (if ns = ''S'' \<or> ns = ''s'' then - \<bar>lat0\<bar>
                   else if ns = ''N'' \<or> ns = ''n'' then \<bar>lat0\<bar> else lat0)"
    using nsc by (elim disjE) (simp_all add: upper_letters)
  have lonv: "(if ew \<noteq> [] then (if upper ew = ''W'' then - \<bar>lon0\<bar> else \<bar>lon0\<bar>) else lon0)
                = (if ew = ''W'' \<or> ew = ''w'' then - \<bar>lon0\<bar>
                   else if ew = ''E'' \<or> ew = ''e'' then \<bar>lon0\<bar> else lon0)"
    using ewc by (elim disjE) (simp_all add: upper_letters)
  have "extract_coords_from_text text =
          Inr (Some (if ns \<noteq> [] then (if upper ns = ''S'' then - \<bar>lat0\<bar> else \<bar>lat0\<bar>) else lat0,
                     if ew \<noteq> [] then (if upper ew = ''W'' then - \<bar>lon0\<bar> else \<bar>lon0\<bar>) else lon0))"
    by (simp add: extract_coords_from_text_def assms lat0 lon0 g(2,4) Let_def)
  then show ?thesis
    unfolding latv lonv using lat0 lon0 g(2,4) by simp
qed

lemma extract_total: "\<exists>r. extract_coords_from_text text = Inr r"
proof (cases "search pattern text")
  case None
  then show ?thesis by (simp add: extract_coords_from_text_def)
next
  case (Some m)
  from extract_of_match [OF this] show ?thesis by blast
qed

lemma extract_None_iff: "extract_coords_from_text text = Inr None \<longleftrightarrow> \<not> occurs pattern text"
proof (cases "search pattern text")
  case None
  then show ?thesis
    using search_None_iff [of pattern "text"] by (simp add: extract_coords_from_text_def)
next
  case (Some m)
  from extract_of_match [OF this] have "extract_coords_from_text text \<noteq> Inr None"
    by auto
  with Some show ?thesis
    using search_None_iff [of pattern "text"] by simp
qed

text \<open>
  C5. The three worked inputs parse to \<open>(-43.5, 79.2)\<close>, \<open>(43.5, -79.2)\<close> and
  \<open>(43.5, 79.2)\<close>; and for every text with a match, the latitude is the negated absolute
  value of the first number when the letter after it is S or s, its absolute value when
  the letter is N or n, and the number itself when there is no letter; likewise the
  longitude with W or w, E or e, and the second number.
\<close>

theorem hemisphere_letters_decide_sign:
  "extract_coords_from_text ''43.5S 79.2E'' = Inr (Some (- 43.5, 79.2))
   \<and> extract_coords_from_text ''43.5N 79.2W'' = Inr (Some (43.5, - 79.2))
   \<and> extract_coords_from_text ''43.5 79.2'' = Inr (Some (43.5, 79.2))
   \<and> (\<forall>text m. search pattern text = Some m \<longrightarrow>
         (\<exists>lat0 lon0.
             py_float (group1 m) = Inr lat0 \<and> py_float (group3 m) = Inr lon0
           \<and> extract_coords_from_text text =
               Inr (Some (if group2 m = ''S'' \<or> group2 m = ''s'' then - \<bar>lat0\<bar>
                          else if group2 m = ''N'' \<or> group2 m = ''n'' then \<bar>lat0\<bar> else lat0,
                          if group4 m = ''W'' \<or> group4 m = ''w'' then - \<bar>lon0\<bar>
                          else if group4 m = ''E'' \<or> group4 m = ''e'' then \<bar>lon0\<bar> else lon0))))"
proof (intro conjI allI impI)
  show "extract_coords_from_text ''43.5S 79.2E'' = Inr (Some (- 43.5, 79.2))"
    by code_simp
  show "extract_coords_from_text ''43.5N 79.2W'' = Inr (Some (43.5, - 79.2))"
    by code_simp
  show "extract_coords_from_text ''43.5 79.2'' = Inr (Some (43.5, 79.2))"
    by code_simp
next
  fix s m
  assume "search pattern s = Some m"
  then show "\<exists>lat0 lon0.
             py_float (group1 m) = Inr lat0 \<and> py_float (group3 m) = Inr lon0
           \<and> extract_coords_from_text s =
               Inr (Some (if group2 m = ''S'' \<or> group2 m = ''s'' then - \<bar>lat0\<bar>
                          else if group2 m = ''N'' \<or> group2 m = ''n'' then \<bar>lat0\<bar> else lat0,
                          if group4 m = ''W'' \<or> group4 m = ''w'' then - \<bar>lon0\<bar>
                          else if group4 m = ''E'' \<or> group4 m = ''e'' then \<bar>lon0\<bar> else lon0))"
    by (rule extract_of_match)
qed

lemma search_example:
  "search pattern ''-43.5s,-79.2e'' =
     Some [''-'', ''43'', ''.'', ''5'', [], ''s'', '','', ''-'', ''79'', ''.'', ''2'', [], ''e'']"
  by code_simp

theorem hemisphere_letters_decide_sign_witness:
  "extract_coords_from_text ''-43.5s,-79.2e'' = Inr (Some (- 43.5, 79.2))"
proof -
  from hemisphere_letters_decide_sign
  have "search pattern ''-43.5s,-79.2e''
          = Some [''-'', ''43'', ''.'', ''5'', [], ''s'', '','', ''-'', ''79'', ''.'', ''2'', [], ''e'']
        \<longrightarrow> (\<exists>lat0 lon0.
             py_float (group1 [''-'', ''43'', ''.'', ''5'', [], ''s'', '','', ''-'', ''79'', ''.'', ''2'', [], ''e'']) = Inr lat0
           \<and> py_float (group3 [''-'', ''43'', ''.'', ''5'', [], ''s'', '','', ''-'', ''79'', ''.'', ''2'', [], ''e'']) = Inr lon0
           \<and> extract_coords_from_text ''-43.5s,-79.2e'' =
               Inr (Some (if group2 [''-'', ''43'', ''.'', ''5'', [], ''s'', '','', ''-'', ''79'', ''.'', ''2'', [], ''e''] = ''S''
                             \<or> group2 [''-'', ''43'', ''.'', ''5'', [], ''s'', '','', ''-'', ''79'', ''.'', ''2'', [], ''e''] = ''s'' then - \<bar>lat0\<bar>
                          else if group2 [''-'', ''43'', ''.'', ''5'', [], ''s'', '','', ''-'', ''79'', ''.'', ''2'', [], ''e''] = ''N''
                             \<or> group2 [''-'', ''43'', ''.'', ''5'', [], ''s'', '','', ''-'', ''79'', ''.'', ''2'', [], ''e''] = ''n'' then \<bar>lat0\<bar> else lat0,
                          if group4 [''-'', ''43'', ''.'', ''5'', [], ''s'', '','', ''-'', ''79'', ''.'', ''2'', [], ''e''] = ''W''
                             \<or> group4 [''-'', ''43'', ''.'', ''5'', [], ''s'', '','', ''-'', ''79'', ''.'', ''2'', [], ''e''] = ''w'' then - \<bar>lon0\<bar>
                          else if group4 [''-'', ''43'', ''.'', ''5'', [], ''s'', '','', ''-'', ''79'', ''.'', ''2'', [], ''e''] = ''E''
                             \<or> group4 [''-'', ''43'', ''.'', ''5'', [], ''s'', '','', ''-'', ''79'', ''.'', ''2'', [], ''e''] = ''e'' then \<bar>lon0\<bar> else lon0)))"
    by blast
  moreover have "py_float ''-43.5'' = Inr (- 43.5)" and "py_float ''-79.2'' = Inr (- 79.2)"
    by code_simp+
  ultimately show ?thesis
    using search_example by (auto simp: group1_def group2_def group3_def group4_def)
qed

text \<open>
  C6, as stated. The claim describes the pattern as number, separators, N/S letter, number,
  separators, E/W letter (\<open>spec_pattern\<close>). The pattern of the code also lets any run of
  characters other than digits and \<open>-\<close> stand between the N/S letter and the second number.
  So \<open>43.5x79.2\<close>, and the specification's own example \<open>43.5N 79.2W\<close>, contain nothing
  that matches the pattern as described, and still parse to a reading.
\<close>

theorem described_pattern_counterexample:
  "\<not> (extract_coords_from_text ''43.5x79.2'' = Inr None \<longleftrightarrow> \<not> occurs spec_pattern ''43.5x79.2'')
   \<and> \<not> (extract_coords_from_text ''43.5N 79.2W'' = Inr None
          \<longleftrightarrow> \<not> occurs spec_pattern ''43.5N 79.2W'')"
proof -
  have a: "\<not> occurs spec_pattern ''43.5x79.2''"
    unfolding search_None_iff [symmetric] by code_simp
  have b: "\<not> occurs spec_pattern ''43.5N 79.2W''"
    unfolding search_None_iff [symmetric] by code_simp
  have c: "extract_coords_from_text ''43.5x79.2'' = Inr (Some (43.5, 79.2))"
    by code_simp
  have d: "extract_coords_from_text ''43.5N 79.2W'' = Inr (Some (43.5, - 79.2))"
    by code_simp
  from a b show ?thesis
    unfolding c d by simp
qed

text \<open>
  C6, amended. For every text the parser returns without raising, and it returns the
  absence value exactly when no substring of the text matches the pattern of the code:
  number (optional \<open>-\<close>, one to three digits, a point, one or more digits), any run of
  separators (blank, comma, degree sign), an optional N/S letter, any run of characters
  other than digits and \<open>-\<close>, a second number, any run of separators, an optional E/W
  letter. The empty text gives the absence value.
\<close>

theorem absent_iff_no_match:
  "(\<exists>r. extract_coords_from_text text = Inr r)
   \<and> (extract_coords_from_text text = Inr None \<longleftrightarrow> \<not> occurs pattern text)
   \<and> extract_coords_from_text [] = Inr None"
proof (intro conjI)
  show "\<exists>r. extract_coords_from_text text = Inr r"
    by (rule extract_total)
  show "extract_coords_from_text text = Inr None \<longleftrightarrow> \<not> occurs pattern text"
    by (rule extract_None_iff)
  show "extract_coords_from_text [] = Inr None"
    by code_simp
qed

theorem absent_iff_no_match_witness:
  "occurs pattern ''43.5x79.2'' \<and> \<not> occurs pattern ''43.5 N''"
proof -
  have "extract_coords_from_text ''43.5x79.2'' = Inr (Some (43.5, 79.2))"
    by code_simp
  moreover have "extract_coords_from_text ''43.5 N'' = Inr None"
    by code_simp
  ultimately show ?thesis
    using absent_iff_no_match [of "''43.5x79.2''"] absent_iff_no_match [of "''43.5 N''"]
    by simp
qed

subsection \<open>Decimal output\<close>

lemma digit_chars:
  "digit_char 0 = CHR ''0''" "digit_char 1 = CHR ''1''" "digit_char 2 = CHR ''2''"
  "digit_char 3 = CHR ''3''" "digit_char 4 = CHR ''4''" "digit_char 5 = CHR ''5''"
  "digit_char 6 = CHR ''6''" "digit_char 7 = CHR ''7''" "digit_char 8 = CHR ''8''"
  "digit_char 9 = CHR ''9''"
  by code_simp+

lemma digit_char_Suc0: "digit_char (Suc 0) = CHR ''1''"
  using digit_chars(2) by simp

lemma below_ten:
  assumes "d < (10::nat)"
  shows "d = 0 \<or> d = 1 \<or> d = 2 \<or> d = 3 \<or> d = 4 \<or> d = 5 \<or> d = 6 \<or> d = 7 \<or> d = 8 \<or> d = 9"
  using assms by arith

lemma digit_val_zero: "digit_val CHR ''0'' = 0"
  by (simp add: digit_val_def)

lemma digits_val_zeros: "digits_val (replicate k CHR ''0'' @ ds) = digits_val ds"
  unfolding digits_val_def by (induction k) (simp_all add: digit_val_zero)


lemma digit_char_digit:
  assumes "d < 10"
  shows "is_digit (digit_char d)" and "digit_val (digit_char d) = d"
proof -
  have "is_digit (digit_char d) \<and> digit_val (digit_char d) = d"
    using below_ten [OF assms]
    by (elim disjE) (simp_all add: digit_chars digit_char_Suc0 is_digit_def digit_val_def)
  then show "is_digit (digit_char d)" and "digit_val (digit_char d) = d"
    by simp_all
qed


lemma str_nat_digits: "str_nat n \<noteq> [] \<and> (\<forall>c \<in> set (str_nat n). is_digit c)"
proof (induction n rule: str_nat.induct)
  case (1 n)
  show ?case
  proof (cases "n < 10")
    case True
    then show ?thesis
      by (subst (1 2) str_nat.simps) (simp add: digit_char_digit)
  next
    case False
    then have "n mod 10 < 10" by simp
    with False 1 show ?thesis
      by (subst (1 2) str_nat.simps) (simp add: digit_char_digit)
  qed
qed

lemma digits_val_snoc: "digits_val (ds @ [c]) = 10 * digits_val ds + digit_val c"
  by (simp add: digits_val_def)

lemma digits_val_str_nat: "digits_val (str_nat n) = n"
proof (induction n rule: str_nat.induct)
  case (1 n)
  show ?case
  proof (cases "n < 10")
    case True
    then show ?thesis
      by (subst str_nat.simps) (simp add: digits_val_def digit_char_digit)
  next
    case False
    then have "n mod 10 < 10" by simp
    with False 1 show ?thesis
      by (subst str_nat.simps) (simp add: digits_val_snoc digit_char_digit)
  qed
qed

lemma length_str_nat:
  assumes "n < 10 ^ k" and "0 < k"
  shows "length (str_nat n) \<le> k"
  using assms
proof (induction n arbitrary: k rule: str_nat.induct)
  case (1 n)
  show ?case
  proof (cases "n < 10")
    case True
    with 1(3) show ?thesis
      by (subst str_nat.simps) simp
  next
    case False
    obtain j where k: "k = Suc j" using 1(3) by (cases k) auto
    have "0 < j"
    proof (rule ccontr)
      assume "\<not> 0 < j"
      with k 1(2) False show False by simp
    qed
    moreover from 1(2) k have "n div 10 < 10 ^ j"
      by (simp add: less_mult_imp_div_less mult.commute)
    ultimately have "length (str_nat (n div 10)) \<le> j"
      using 1(1) [OF False] by blast
    with False k show ?thesis
      by (subst str_nat.simps) simp
  qed
qed

lemma zero_pad_props:
  assumes "0 \<le> n" and "n < 10 ^ w" and "0 < w"
  shows "length (zero_pad w n) = w"
    and "\<forall>c \<in> set (zero_pad w n). is_digit c"
    and "digits_val (zero_pad w n) = nat n"
proof -
  have "nat n < 10 ^ w"
    using assms(1,2) by (simp add: nat_less_iff)
  then have "length (str_nat (nat n)) \<le> w"
    using assms(3) by (rule length_str_nat)
  then show "length (zero_pad w n) = w"
    by (simp add: zero_pad_def Let_def)
  have "is_digit CHR ''0''" by (simp add: is_digit_def)
  then show "\<forall>c \<in> set (zero_pad w n). is_digit c"
    using str_nat_digits [of "nat n"] by (auto simp: zero_pad_def Let_def)
  show "digits_val (zero_pad w n) = nat n"
    by (simp add: zero_pad_def Let_def digits_val_zeros digits_val_str_nat)
qed

text \<open>Rounding to six places and the text it is written as.\<close>

lemma round_half_even_nonneg:
  assumes "0 \<le> y"
  shows "0 \<le> round_half_even y"
proof -
  from assms have "0 \<le> \<lfloor>y\<rfloor>" by simp
  then show ?thesis
    by (simp add: round_half_even_def Let_def)
qed

lemma round_half_even_close: "\<bar>of_int (round_half_even y) - y\<bar> \<le> 1 / 2"
proof -
  define d where "d = y - of_int \<lfloor>y\<rfloor>"
  have d: "0 \<le> d" "d < 1"
    unfolding d_def by linarith+
  have y: "y = of_int \<lfloor>y\<rfloor> + d"
    by (simp add: d_def)
  consider "d < 1 / 2" | "1 / 2 < d" | "d = 1 / 2" "even \<lfloor>y\<rfloor>" | "d = 1 / 2" "odd \<lfloor>y\<rfloor>"
    by fastforce
  then show ?thesis
  proof cases
    case 1
    then have "round_half_even y = \<lfloor>y\<rfloor>"
      by (simp add: round_half_even_def Let_def d_def)
    with d 1 show ?thesis by (subst (2) y) simp
  next
    case 2
    then have "round_half_even y = \<lfloor>y\<rfloor> + 1"
      by (simp add: round_half_even_def Let_def d_def)
    with d 2 show ?thesis by (subst (2) y) simp
  next
    case 3
    then have "round_half_even y = \<lfloor>y\<rfloor>"
      by (simp add: round_half_even_def Let_def d_def)
    with d 3 show ?thesis by (subst (2) y) simp
  next
    case 4
    then have "round_half_even y = \<lfloor>y\<rfloor> + 1"
      by (simp add: round_half_even_def Let_def d_def)
    with d 4 show ?thesis by (subst (2) y) simp
  qed
qed

lemma fmt6_parts:
  fixes x :: pyfloat
  defines "n \<equiv> round_half_even (\<bar>float_val x\<bar> * 1000000)"
  defines "ip \<equiv> str_nat (nat (n div 1000000))"
  defines "fp \<equiv> zero_pad 6 (n mod 1000000)"
  shows "fmt6 x = (if sign_bit x then ''-'' else []) @ ip @ ''.'' @ fp"
    and "ip \<noteq> []" and "\<forall>c \<in> set ip. is_digit c"
    and "length fp = 6" and "\<forall>c \<in> set fp. is_digit c"
    and "real (digits_val ip) + real (digits_val fp) / 10 ^ length fp = real_of_int n / 1000000"
proof -
  show "fmt6 x = (if sign_bit x then ''-'' else []) @ ip @ ''.'' @ fp"
    by (simp add: fmt6_def Let_def n_def ip_def fp_def)
  show "ip \<noteq> []" and "\<forall>c \<in> set ip. is_digit c"
    using str_nat_digits [of "nat (n div 1000000)"] by (simp_all add: ip_def)
  have n0: "0 \<le> n"
    unfolding n_def by (rule round_half_even_nonneg) simp
  have m: "0 \<le> n mod 1000000" "n mod 1000000 < 10 ^ 6"
    by simp_all
  show len: "length fp = 6" and "\<forall>c \<in> set fp. is_digit c"
    unfolding fp_def using zero_pad_props(1,2) [OF m] by simp_all
  have "digits_val fp = nat (n mod 1000000)"
    unfolding fp_def using zero_pad_props(3) [OF m] by simp
  moreover have "digits_val ip = nat (n div 1000000)"
    by (simp add: ip_def digits_val_str_nat)
  moreover have "0 \<le> n div 1000000"
    using n0 by (simp add: pos_imp_zdiv_nonneg_iff)
  moreover have "real_of_int n = real_of_int (n div 1000000) * 1000000 + real_of_int (n mod 1000000)"
    by (metis mult.commute of_int_add of_int_mult of_int_numeral mult_div_mod_eq)
  ultimately show "real (digits_val ip) + real (digits_val fp) / 10 ^ length fp
                     = real_of_int n / 1000000"
    using m(1) by (simp add: len)
qed

lemma fmt6_six_decimals: "six_decimals (fmt6 x) \<and> (hd (fmt6 x) = CHR ''-'' \<longleftrightarrow> sign_bit x)"
proof -
  define ip where "ip = str_nat (nat (round_half_even (\<bar>float_val x\<bar> * 1000000) div 1000000))"
  define fp where "fp = zero_pad 6 (round_half_even (\<bar>float_val x\<bar> * 1000000) mod 1000000)"
  note p = fmt6_parts [of x, folded ip_def fp_def]
  have nd: "\<not> is_digit CHR ''.''" "\<not> is_digit CHR ''-''"
    by (simp_all add: is_digit_def)
  have tw: "takeWhile is_digit (ip @ ''.'' @ fp) = ip"
    using p(3) nd by (simp add: takeWhile_append2)
  have dw: "dropWhile is_digit (ip @ ''.'' @ fp) = ''.'' @ fp"
    using p(3) nd by (simp add: dropWhile_append2)
  have hd: "hd (ip @ ''.'' @ fp) \<noteq> CHR ''-''"
    using p(2,3) nd by (cases ip) auto
  show ?thesis
  proof (cases "sign_bit x")
    case True
    with p(1) have "fmt6 x = CHR ''-'' # (ip @ ''.'' @ fp)" by simp
    then show ?thesis
      using True tw dw p(2,4,5) by (simp add: six_decimals_def Let_def list_all_iff)
  next
    case False
    with p(1) have "fmt6 x = ip @ ''.'' @ fp" by simp
    then show ?thesis
      using False tw dw hd p(2,4,5) by (simp add: six_decimals_def Let_def list_all_iff)
  qed
qed

lemma fmt6_value: "\<exists>v. py_float (fmt6 x) = Inr v \<and> \<bar>v - float_val x\<bar> \<le> 1 / 2000000"
proof -
  define n where "n = round_half_even (\<bar>float_val x\<bar> * 1000000)"
  define ip where "ip = str_nat (nat (n div 1000000))"
  define fp where "fp = zero_pad 6 (n mod 1000000)"
  note p = fmt6_parts [of x, folded n_def, folded ip_def fp_def]
  have fpne: "fp \<noteq> []" using p(4) by auto
  have sg: "(if sign_bit x then ''-'' else []) = [] \<or> (if sign_bit x then ''-'' else []) = ''-''"
    by simp
  have "py_float (fmt6 x) =
          Inr ((if (if sign_bit x then ''-'' else []) = [] then 1 else - 1)
               * (real (digits_val ip) + real (digits_val fp) / 10 ^ length fp))"
    unfolding p(1) using sg p(2,3) fpne p(5) by (rule py_float_shape)
  then have v: "py_float (fmt6 x) = Inr ((if sign_bit x then - 1 else 1) * (real_of_int n / 1000000))"
    unfolding p(6) by simp
  have "\<bar>real_of_int n - \<bar>float_val x\<bar> * 1000000\<bar> \<le> 1 / 2"
    unfolding n_def by (rule round_half_even_close)
  then have close: "\<bar>real_of_int n / 1000000 - \<bar>float_val x\<bar>\<bar> \<le> 1 / 2000000"
    by (simp add: abs_if field_simps split: if_splits)
  have "\<bar>(if sign_bit x then - 1 else 1) * (real_of_int n / 1000000) - float_val x\<bar> \<le> 1 / 2000000"
  proof (cases x)
    case (Float y)
    with close show ?thesis
      by (simp add: abs_if split: if_splits)
  next
    case NegZero
    with close show ?thesis
      by simp
  qed
  with v show ?thesis by blast
qed

text \<open>Evaluating the decimal output on numerals.\<close>

lemma str_nat_small: "n < 10 \<Longrightarrow> str_nat n = [digit_char n]"
  by (subst str_nat.simps) simp

lemma str_nat_big: "10 \<le> n \<Longrightarrow> str_nat n = str_nat (n div 10) @ [digit_char (n mod 10)]"
  by (subst str_nat.simps) simp

lemmas decimal_eval = str_nat_small str_nat_big digit_chars digit_char_Suc0 zero_pad_def Let_def

text \<open>Neither text holds a character of the markup.\<close>

lemma zero_pad_digits: "list_all is_digit (zero_pad w n)"
proof -
  have "is_digit CHR ''0''" by (simp add: is_digit_def)
  then show ?thesis
    using str_nat_digits [of "nat n"] by (auto simp: zero_pad_def Let_def list_all_iff)
qed

lemma fmt6_chars: "list_all (\<lambda>c. is_digit c \<or> c = CHR ''-'' \<or> c = CHR ''.'') (fmt6 x)"
proof -
  have w: "list_all (\<lambda>c. is_digit c \<or> c = CHR ''-'' \<or> c = CHR ''.'') s" if "list_all is_digit s" for s
    using that by (simp add: list_all_iff)
  have "list_all is_digit (str_nat n)" for n
    using str_nat_digits [of n] by (simp add: list_all_iff)
  then show ?thesis
    by (simp add: fmt6_def Let_def w zero_pad_digits)
qed

lemma isoformat_chars:
  "list_all (\<lambda>c. is_digit c \<or> c = CHR ''-'' \<or> c = CHR ''.'' \<or> c = CHR '':'' \<or> c = CHR ''T'')
     (isoformat t)"
proof -
  have w: "list_all (\<lambda>c. is_digit c \<or> c = CHR ''-'' \<or> c = CHR ''.'' \<or> c = CHR '':'' \<or> c = CHR ''T'') s"
    if "list_all is_digit s" for s
    using that by (simp add: list_all_iff)
  show ?thesis
    by (simp add: isoformat_def w zero_pad_digits)
qed

subsection \<open>Claims about the GPX writer\<close>

lemma write_points_eq:
  "write_points f points =
     f @ concat (map (\<lambda>(t, lat, lon).
           ''      <trkpt lat='' @ [CHR 0x22] @ fmt6 lat @ [CHR 0x22] @ '' lon='' @ [CHR 0x22]
           @ fmt6 lon @ [CHR 0x22] @ ''><time>'' @ isoformat t @ ''Z</time></trkpt>'' @ [CHR 0x0A])
         points)"
  by (induction f points rule: write_points.induct) simp_all

text \<open>The timestamp as text: each group of digits is the field it stands for.\<close>

lemma isoformat_shape:
  assumes "fields_in_range t"
  shows "\<exists>y mo d h mi s fr.
           isoformat t = y @ ''-'' @ mo @ ''-'' @ d @ ''T'' @ h @ '':'' @ mi @ '':'' @ s @ fr
         \<and> length y = 4 \<and> length mo = 2 \<and> length d = 2
         \<and> length h = 2 \<and> length mi = 2 \<and> length s = 2
         \<and> list_all is_digit (y @ mo @ d @ h @ mi @ s)
         \<and> digits_val y = nat (year t) \<and> digits_val mo = nat (month t)
         \<and> digits_val d = nat (day t) \<and> digits_val h = nat (hour t)
         \<and> digits_val mi = nat (minute t) \<and> digits_val s = nat (second t)
         \<and> (if microsecond t = 0 then fr = []
             else \<exists>us. fr = ''.'' @ us \<and> length us = 6 \<and> list_all is_digit us
                      \<and> digits_val us = nat (microsecond t))"
proof -
  from assms have r: "0 \<le> year t" "year t < 10 ^ 4" "0 \<le> month t" "month t < 10 ^ 2"
    "0 \<le> day t" "day t < 10 ^ 2" "0 \<le> hour t" "hour t < 10 ^ 2"
    "0 \<le> minute t" "minute t < 10 ^ 2" "0 \<le> second t" "second t < 10 ^ 2"
    "0 \<le> microsecond t" "microsecond t < 10 ^ 6"
    by (simp_all add: fields_in_range_def)
  note y = zero_pad_props [OF r(1,2), simplified]
  note mo = zero_pad_props [OF r(3,4), simplified]
  note d = zero_pad_props [OF r(5,6), simplified]
  note h = zero_pad_props [OF r(7,8), simplified]
  note mi = zero_pad_props [OF r(9,10), simplified]
  note s = zero_pad_props [OF r(11,12), simplified]
  note us = zero_pad_props [OF r(13,14), simplified]
  let ?fr = "if microsecond t \<noteq> 0 then ''.'' @ zero_pad 6 (microsecond t) else []"
  have "isoformat t = zero_pad 4 (year t) @ ''-'' @ zero_pad 2 (month t) @ ''-''
                      @ zero_pad 2 (day t) @ ''T'' @ zero_pad 2 (hour t) @ '':''
                      @ zero_pad 2 (minute t) @ '':'' @ zero_pad 2 (second t) @ ?fr"
    by (simp add: isoformat_def)
  moreover have "list_all is_digit (zero_pad 4 (year t) @ zero_pad 2 (month t) @ zero_pad 2 (day t)
                    @ zero_pad 2 (hour t) @ zero_pad 2 (minute t) @ zero_pad 2 (second t))"
    by (simp add: zero_pad_digits)
  moreover have "if microsecond t = 0 then ?fr = []
                 else \<exists>us. ?fr = ''.'' @ us \<and> length us = 6 \<and> list_all is_digit us
                          \<and> digits_val us = nat (microsecond t)"
    using us(1,3) by (simp add: zero_pad_digits)
  ultimately show ?thesis
    using y(1,3) mo(1,3) d(1,3) h(1,3) mi(1,3) s(1,3) by (intro exI conjI) assumption+
qed

text \<open>Evaluating the two texts on numerals.\<close>

lemma replicate_numeral_Cons: "replicate (numeral k) x = x # replicate (pred_numeral k) x"
  by (simp add: numeral_eq_Suc)

lemma isoformat_noon: "isoformat noon = ''2024-02-29T12:00:00''"
  by (simp add: isoformat_def noon_def decimal_eval)

lemma isoformat_noon_01_quarter:
  "isoformat (noon_01\<lparr>microsecond := 250000\<rparr>) = ''2024-02-29T12:00:01.250000''"
  by (simp add: isoformat_def noon_01_def noon_def decimal_eval)

lemma fmt6_north: "fmt6 (Float 43.5) = ''43.500000''"
  by (simp add: fmt6_def round_half_even_def decimal_eval replicate_numeral_Cons)

lemma fmt6_west: "fmt6 (Float (- 79.2)) = ''-79.200000''"
  by (simp add: fmt6_def round_half_even_def decimal_eval replicate_numeral_Cons)

lemma fmt6_zero: "fmt6 (Float 0) = ''0.000000''"
  by (simp add: fmt6_def round_half_even_def decimal_eval replicate_numeral_Cons)

lemma fmt6_negative_zero: "fmt6 NegZero = ''-0.000000''"
  by (simp add: fmt6_def round_half_even_def decimal_eval replicate_numeral_Cons)

lemma fmt6_half_even: "fmt6 (Float 0.0078125) = ''0.007812''"
  by (simp add: fmt6_def round_half_even_def decimal_eval replicate_numeral_Cons)


text \<open>
  C8. The file that \<open>write_gpx\<close> leaves under \<open>out_file\<close> is the XML declaration and
  the \<open>gpx\<close> opening tag, one \<open>trk\<close> holding one \<open>trkseg\<close>, and inside it, for the
  readings in their order, one \<open>trkpt\<close> line each, whose \<open>lat\<close> and \<open>lon\<close> attributes
  are the coordinates as written by \<open>fmt6\<close> and whose \<open>time\<close> child is the timestamp's
  \<open>isoformat\<close> followed by \<open>Z\<close>. What \<open>fmt6\<close> writes has exactly six digits after the
  point, starts with \<open>-\<close> exactly for a float whose sign bit is set (the negative zero
  too) and denotes the coordinate to within half a unit of the sixth place. The
  \<open>isoformat\<close> of a datetime with its fields in range is \<open>YYYY-MM-DDTHH:MM:SS\<close>, whose
  groups of digits read as numbers are the year, month, day, hour, minute and second of
  that datetime, followed, exactly when the microseconds are not zero, by a point and
  the microseconds in six digits. Neither text holds a quote, an angle bracket or a
  line break, so it cannot end the attribute or the element it is written in.
\<close>

theorem gpx_one_track_point_per_reading:
  "write_gpx points out_file fs =
     fs(out_file \<mapsto>
        ''<?xml version='' @ [CHR 0x22] @ ''1.0'' @ [CHR 0x22] @ '' encoding='' @ [CHR 0x22]
        @ ''UTF-8'' @ [CHR 0x22] @ ''?>'' @ [CHR 0x0A]
        @ ''<gpx version='' @ [CHR 0x22] @ ''1.1'' @ [CHR 0x22] @ '' creator='' @ [CHR 0x22]
        @ ''DashcamExtractor'' @ [CHR 0x22] @ '' xmlns='' @ [CHR 0x22]
        @ ''http://www.topografix.com/GPX/1/1'' @ [CHR 0x22] @ ''>'' @ [CHR 0x0A]
        @ ''  <trk>'' @ [CHR 0x0A] @ ''    <trkseg>'' @ [CHR 0x0A]
        @ concat (map (\<lambda>(t, lat, lon).
              ''      <trkpt lat='' @ [CHR 0x22] @ fmt6 lat @ [CHR 0x22] @ '' lon='' @ [CHR 0x22]
              @ fmt6 lon @ [CHR 0x22] @ ''><time>'' @ isoformat t @ ''Z</time></trkpt>''
              @ [CHR 0x0A]) points)
        @ ''    </trkseg>'' @ [CHR 0x0A] @ ''  </trk>'' @ [CHR 0x0A] @ ''</gpx>'' @ [CHR 0x0A])
   \<and> six_decimals (fmt6 x) \<and> (hd (fmt6 x) = CHR ''-'' \<longleftrightarrow> sign_bit x)
   \<and> (\<exists>v. py_float (fmt6 x) = Inr v \<and> \<bar>v - float_val x\<bar> \<le> 1 / 2000000)
   \<and> list_all (\<lambda>c. is_digit c \<or> c = CHR ''-'' \<or> c = CHR ''.'') (fmt6 x)
   \<and> list_all (\<lambda>c. is_digit c \<or> c = CHR ''-'' \<or> c = CHR ''.'' \<or> c = CHR '':'' \<or> c = CHR ''T'')
        (isoformat t)
   \<and> (fields_in_range t \<longrightarrow>
        (\<exists>y mo d h mi s fr.
             isoformat t = y @ ''-'' @ mo @ ''-'' @ d @ ''T'' @ h @ '':'' @ mi @ '':'' @ s @ fr
           \<and> length y = 4 \<and> length mo = 2 \<and> length d = 2
           \<and> length h = 2 \<and> length mi = 2 \<and> length s = 2
           \<and> list_all is_digit (y @ mo @ d @ h @ mi @ s)
           \<and> digits_val y = nat (year t) \<and> digits_val mo = nat (month t)
           \<and> digits_val d = nat (day t) \<and> digits_val h = nat (hour t)
           \<and> digits_val mi = nat (minute t) \<and> digits_val s = nat (second t)
           \<and> (if microsecond t = 0 then fr = []
               else \<exists>us. fr = ''.'' @ us \<and> length us = 6 \<and> list_all is_digit us
                        \<and> digits_val us = nat (microsecond t))))"
proof (intro conjI impI)
  show "write_gpx points out_file fs =
     fs(out_file \<mapsto>
        ''<?xml version='' @ [CHR 0x22] @ ''1.0'' @ [CHR 0x22] @ '' encoding='' @ [CHR 0x22]
        @ ''UTF-8'' @ [CHR 0x22] @ ''?>'' @ [CHR 0x0A]
        @ ''<gpx version='' @ [CHR 0x22] @ ''1.1'' @ [CHR 0x22] @ '' creator='' @ [CHR 0x22]
        @ ''DashcamExtractor'' @ [CHR 0x22] @ '' xmlns='' @ [CHR 0x22]
        @ ''http://www.topografix.com/GPX/1/1'' @ [CHR 0x22] @ ''>'' @ [CHR 0x0A]
        @ ''  <trk>'' @ [CHR 0x0A] @ ''    <trkseg>'' @ [CHR 0x0A]
        @ concat (map (\<lambda>(t, lat, lon).
              ''      <trkpt lat='' @ [CHR 0x22] @ fmt6 lat @ [CHR 0x22] @ '' lon='' @ [CHR 0x22]
              @ fmt6 lon @ [CHR 0x22] @ ''><time>'' @ isoformat t @ ''Z</time></trkpt>''
              @ [CHR 0x0A]) points)
        @ ''    </trkseg>'' @ [CHR 0x0A] @ ''  </trk>'' @ [CHR 0x0A] @ ''</gpx>'' @ [CHR 0x0A])"
    unfolding write_gpx_def Let_def write_points_eq by (simp only: append_assoc append_Nil)
  show "six_decimals (fmt6 x)"
    using fmt6_six_decimals [of x] by simp
  show "hd (fmt6 x) = CHR ''-'' \<longleftrightarrow> sign_bit x"
    using fmt6_six_decimals [of x] by simp
  show "\<exists>v. py_float (fmt6 x) = Inr v \<and> \<bar>v - float_val x\<bar> \<le> 1 / 2000000"
    by (rule fmt6_value)
  show "list_all (\<lambda>c. is_digit c \<or> c = CHR ''-'' \<or> c = CHR ''.'') (fmt6 x)"
    by (rule fmt6_chars)
  show "list_all (\<lambda>c. is_digit c \<or> c = CHR ''-'' \<or> c = CHR ''.'' \<or> c = CHR '':'' \<or> c = CHR ''T'')
        (isoformat t)"
    by (rule isoformat_chars)
next
  assume "fields_in_range t"
  then show "\<exists>y mo d h mi s fr.
             isoformat t = y @ ''-'' @ mo @ ''-'' @ d @ ''T'' @ h @ '':'' @ mi @ '':'' @ s @ fr
           \<and> length y = 4 \<and> length mo = 2 \<and> length d = 2
           \<and> length h = 2 \<and> length mi = 2 \<and> length s = 2
           \<and> list_all is_digit (y @ mo @ d @ h @ mi @ s)
           \<and> digits_val y = nat (year t) \<and> digits_val mo = nat (month t)
           \<and> digits_val d = nat (day t) \<and> digits_val h = nat (hour t)
           \<and> digits_val mi = nat (minute t) \<and> digits_val s = nat (second t)
           \<and> (if microsecond t = 0 then fr = []
               else \<exists>us. fr = ''.'' @ us \<and> length us = 6 \<and> list_all is_digit us
                        \<and> digits_val us = nat (microsecond t))"
    by (rule isoformat_shape)
qed

theorem gpx_one_track_point_per_reading_witness:
  "fields_in_range (noon_01\<lparr>microsecond := 250000\<rparr>)
   \<and> write_gpx [(noon, Float 43.5, Float (- 79.2)), (noon_01\<lparr>microsecond := 250000\<rparr>, NegZero, Float 0)]
       ''track.gpx'' Map.empty ''track.gpx'' =
       Some (''<?xml version='' @ [CHR 0x22] @ ''1.0'' @ [CHR 0x22] @ '' encoding='' @ [CHR 0x22]
             @ ''UTF-8'' @ [CHR 0x22] @ ''?>'' @ [CHR 0x0A]
             @ ''<gpx version='' @ [CHR 0x22] @ ''1.1'' @ [CHR 0x22] @ '' creator='' @ [CHR 0x22]
             @ ''DashcamExtractor'' @ [CHR 0x22] @ '' xmlns='' @ [CHR 0x22]
             @ ''http://www.topografix.com/GPX/1/1'' @ [CHR 0x22] @ ''>'' @ [CHR 0x0A]
             @ ''  <trk>'' @ [CHR 0x0A] @ ''    <trkseg>'' @ [CHR 0x0A]
             @ ''      <trkpt lat='' @ [CHR 0x22] @ ''43.500000'' @ [CHR 0x22] @ '' lon=''
             @ [CHR 0x22] @ ''-79.200000'' @ [CHR 0x22]
             @ ''><time>2024-02-29T12:00:00Z</time></trkpt>'' @ [CHR 0x0A]
             @ ''      <trkpt lat='' @ [CHR 0x22] @ ''-0.000000'' @ [CHR 0x22] @ '' lon=''
             @ [CHR 0x22] @ ''0.000000'' @ [CHR 0x22]
             @ ''><time>2024-02-29T12:00:01.250000Z</time></trkpt>'' @ [CHR 0x0A]
             @ ''    </trkseg>'' @ [CHR 0x0A] @ ''  </trk>'' @ [CHR 0x0A] @ ''</gpx>'' @ [CHR 0x0A])"
proof
  show "fields_in_range (noon_01\<lparr>microsecond := 250000\<rparr>)"
    by (simp add: fields_in_range_def noon_01_def noon_def)
  show "write_gpx [(noon, Float 43.5, Float (- 79.2)), (noon_01\<lparr>microsecond := 250000\<rparr>, NegZero, Float 0)]
       ''track.gpx'' Map.empty ''track.gpx'' =
       Some (''<?xml version='' @ [CHR 0x22] @ ''1.0'' @ [CHR 0x22] @ '' encoding='' @ [CHR 0x22]
             @ ''UTF-8'' @ [CHR 0x22] @ ''?>'' @ [CHR 0x0A]
             @ ''<gpx version='' @ [CHR 0x22] @ ''1.1'' @ [CHR 0x22] @ '' creator='' @ [CHR 0x22]
             @ ''DashcamExtractor'' @ [CHR 0x22] @ '' xmlns='' @ [CHR 0x22]
             @ ''http://www.topografix.com/GPX/1/1'' @ [CHR 0x22] @ ''>'' @ [CHR 0x0A]
             @ ''  <trk>'' @ [CHR 0x0A] @ ''    <trkseg>'' @ [CHR 0x0A]
             @ ''      <trkpt lat='' @ [CHR 0x22] @ ''43.500000'' @ [CHR 0x22] @ '' lon=''
             @ [CHR 0x22] @ ''-79.200000'' @ [CHR 0x22]
             @ ''><time>2024-02-29T12:00:00Z</time></trkpt>'' @ [CHR 0x0A]
             @ ''      <trkpt lat='' @ [CHR 0x22] @ ''-0.000000'' @ [CHR 0x22] @ '' lon=''
             @ [CHR 0x22] @ ''0.000000'' @ [CHR 0x22]
             @ ''><time>2024-02-29T12:00:01.250000Z</time></trkpt>'' @ [CHR 0x0A]
             @ ''    </trkseg>'' @ [CHR 0x0A] @ ''  </trk>'' @ [CHR 0x0A] @ ''</gpx>'' @ [CHR 0x0A])"
    unfolding gpx_one_track_point_per_reading [of "[(noon, Float 43.5, Float (- 79.2)), (noon_01\<lparr>microsecond := 250000\<rparr>, NegZero, Float 0)]"
                "''track.gpx''" Map.empty NegZero "noon_01\<lparr>microsecond := 250000\<rparr>", THEN conjunct1]
      list.map prod.case fmt6_north fmt6_west fmt6_zero fmt6_negative_zero isoformat_noon
      isoformat_noon_01_quarter
    by simp
qed

end
